theory Spec2Isabelle
  imports Main "HOL-Library.Monad_Syntax"
begin

section \<open>JavaScript values\<close>

text \<open>
  The sample generator is TypeScript. Its configuration objects are plain JavaScript
  objects. The exceptions a run can end with are a \<open>TypeError\<close> (a property read on
  \<open>undefined\<close>), the \<open>SyntaxError\<close> of \<open>JSON.parse\<close> and the \<open>InvalidCharacterError\<close> of a
  base64 decoder; \<open>Unmodelled\<close> is not a JavaScript exception: it marks an input on which
  the model of a built-in gives no verdict.
\<close>

datatype js_error = TypeError | SyntaxError | InvalidCharacterError | Unmodelled

text \<open>
  Numbers. A Number holds an integer exactly when its magnitude is at most \<open>2^53 - 1\<close> (a
  safe integer); \<open>Finite i\<close> stands for a Number only then. \<open>NaN\<close> and the two infinities
  are values of their own. Fractions and negative zero are not modelled.
\<close>

datatype number = Finite int | NaN | PosInfinity | NegInfinity

definition safe_integer :: "int \<Rightarrow> bool" where
  "safe_integer i = (- 9007199254740991 \<le> i \<and> i \<le> 9007199254740991)"

text \<open>
  The values a slot's \<open>size\<close>, a targeting \<open>value\<close> and a template option hold
  (\<open>GeneralSize\<close>, \<open>string | string[]\<close>, enum members): numbers, strings and arrays of
  them. The code generator never computes with them.
\<close>

datatype jsdata = Num number | Str string | Arr "jsdata list"

text \<open>How a template literal (and \<open>String(...)\<close>) renders a value of type \<open>string | undefined\<close>.\<close>

definition template_str :: "string option \<Rightarrow> string" where
  "template_str v = (case v of None \<Rightarrow> ''undefined'' | Some s \<Rightarrow> s)"

text \<open>Truthiness of a value of type \<open>string | undefined\<close>: the empty string is falsy.\<close>

definition truthy :: "string option \<Rightarrow> bool" where
  "truthy v = (case v of None \<Rightarrow> False | Some s \<Rightarrow> s \<noteq> [])"

text \<open>Decimal rendering of an integer-valued Number, as a template literal prints it.\<close>

definition digit_char :: "nat \<Rightarrow> char" where
  "digit_char d = ''0123456789'' ! d"

function decimal :: "nat \<Rightarrow> string" where
  "decimal n = (if n < 10 then [digit_char n] else decimal (n div 10) @ [digit_char (n mod 10)])"
  by pat_completeness auto
termination
  by (relation "measure id") auto

declare decimal.simps [simp del]

definition Number_toString :: "int \<Rightarrow> string" where
  "Number_toString i = (if i < 0 then CHR ''-'' # decimal (nat (- i)) else decimal (nat i))"

text \<open>\<open>Array.prototype.indexOf\<close> and \<open>findIndex\<close>: the first matching position, or \<open>-1\<close>.\<close>

fun indexOf_from :: "nat \<Rightarrow> 'a list \<Rightarrow> 'a \<Rightarrow> int" where
  "indexOf_from k [] x = - 1"
| "indexOf_from k (y # ys) x = (if y = x then int k else indexOf_from (Suc k) ys x)"

definition indexOf :: "'a list \<Rightarrow> 'a \<Rightarrow> int" where
  "indexOf xs x = indexOf_from 0 xs x"

fun findIndex_from :: "nat \<Rightarrow> ('a \<Rightarrow> bool) \<Rightarrow> 'a list \<Rightarrow> int" where
  "findIndex_from k P [] = - 1"
| "findIndex_from k P (y # ys) = (if P y then int k else findIndex_from (Suc k) P ys)"

definition findIndex :: "('a \<Rightarrow> bool) \<Rightarrow> 'a list \<Rightarrow> int" where
  "findIndex P xs = findIndex_from 0 P xs"

text \<open>Array element access \<open>xs[i]\<close>: \<open>undefined\<close> (here \<open>None\<close>) outside the array.\<close>

definition array_get :: "'a list \<Rightarrow> int \<Rightarrow> 'a option" where
  "array_get xs i = (if 0 \<le> i \<and> i < int (length xs) then Some (xs ! nat i) else None)"

text \<open>
  A string is a sequence of code units below 256. \<open>String.prototype.trim\<close> strips the white
  space and line terminators; below 256 these are the code units 9 to 13, 32 and 160.
\<close>

definition is_ws :: "char \<Rightarrow> bool" where
  "is_ws ch = (of_char ch \<in> {9, 10, 11, 12, 13, 32, 160 :: nat})"

definition trim :: "string \<Rightarrow> string" where
  "trim s = rev (dropWhile is_ws (rev (dropWhile is_ws s)))"


section \<open>The sample configuration (model/sample-config)\<close>

text \<open>
  Slot objects are compared by identity (\<open>indexOf\<close> uses strict equality), so a slot is a
  reference into a store of slot objects and \<open>config.slots\<close> is a list of references.
\<close>

type_synonym ref = nat

record SampleTargetingKV =
  key :: string
  "value" :: jsdata

record SamplePrivacyConfig =
  ltd :: "bool option"
  npa :: "bool option"
  rdp :: "bool option"
  tfcd :: "bool option"
  tfua :: "bool option"

record SamplePageConfig =
  privacy :: "SamplePrivacyConfig option"
  sra :: "bool option"
  page_targeting :: "SampleTargetingKV list option"

record SampleSlotConfig =
  adUnit :: string
  format :: "string option"
  slot_size :: jsdata
  targeting :: "SampleTargetingKV list option"

record SampleTemplateConfig =
  template_type :: "jsdata option"
  target :: "jsdata option"

record SampleConfig =
  page :: "SamplePageConfig option"
  slots :: "ref list"
  template :: "SampleTemplateConfig option"

type_synonym store = "ref \<Rightarrow> SampleSlotConfig"


section \<open>Slot settings (codegen/api/slot)\<close>

text \<open>
  \<open>sanitizeJs\<close> (codegen/sanitize) is a parameter \<open>san\<close> of every function that calls it.
\<close>

definition slot_api_addService :: string where
  "slot_api_addService = ''addService(googletag.pubads())''"

definition slot_api_setTargeting :: "(jsdata \<Rightarrow> string) \<Rightarrow> SampleTargetingKV \<Rightarrow> string" where
  "slot_api_setTargeting san kv =
     ''setTargeting('' @ san (Str (key kv)) @ '', '' @ san (value kv) @ '')''"

text \<open>The \<open>forEach\<close> over the targeting list, appending to \<open>slotSettings\<close>.\<close>

fun forEach_targeting :: "(jsdata \<Rightarrow> string) \<Rightarrow> SampleTargetingKV list \<Rightarrow> string \<Rightarrow> string" where
  "forEach_targeting san [] slotSettings = slotSettings"
| "forEach_targeting san (kv # kvs) slotSettings =
     forEach_targeting san kvs (slotSettings @ ''.'' @ slot_api_setTargeting san kv)"

definition addInlineSlotSettings ::
  "(jsdata \<Rightarrow> string) \<Rightarrow> SampleSlotConfig \<Rightarrow> string \<Rightarrow> string" where
  "addInlineSlotSettings san config slotDefinition =
     (let slotSettings =
            (case targeting config of
               None \<Rightarrow> slotDefinition
             | Some kvs \<Rightarrow> forEach_targeting san kvs slotDefinition)
      in slotSettings @ ''.'' @ slot_api_addService @ '';'')"


section \<open>Tag library calls (codegen/api/googletag)\<close>

subsection \<open>Internal template strings\<close>

definition api_cmdInit :: string where
  "api_cmdInit = ''window.googletag = window.googletag || {cmd: []}''"

definition api_cmdPush :: "string \<Rightarrow> string" where
  "api_cmdPush content = ''googletag.cmd.push(() => {'' @ content @ ''})''"

definition api_declareSlot :: "string \<Rightarrow> string" where
  "api_declareSlot ident = ''let '' @ ident @ '': googletag.Slot|null''"

definition api_defineSlot :: "(jsdata \<Rightarrow> string) \<Rightarrow> SampleSlotConfig \<Rightarrow> string \<Rightarrow> string" where
  "api_defineSlot san slot ident =
     ''googletag.defineSlot('' @ san (Str (adUnit slot)) @ '', '' @ san (slot_size slot)
       @ '', '' @ [CHR 0x27] @ ident @ [CHR 0x27] @ '')''"

definition api_defineOutOfPageSlot :: "(jsdata \<Rightarrow> string) \<Rightarrow> SampleSlotConfig \<Rightarrow> string" where
  "api_defineOutOfPageSlot san slot =
     ''googletag.defineOutOfPageSlot('' @ san (Str (adUnit slot))
       @ '', googletag.enums.OutOfPageFormat.'' @ template_str (format slot) @ '')''"

definition api_display :: "string \<Rightarrow> string" where
  "api_display idOrSlot = ''googletag.display('' @ idOrSlot @ '')''"

definition api_enableServices :: string where
  "api_enableServices = ''googletag.enableServices()''"

definition outOfPage_comment :: "string option \<Rightarrow> string" where
  "outOfPage_comment fmt =
     template_str fmt @ '' slots return null if the page or device does not support them.''"

definition outOfPage_loaded :: "string option \<Rightarrow> string" where
  "outOfPage_loaded fmt = template_str fmt @ '' is loaded.''"

definition outOfPage_loadedNeedScroll :: "string option \<Rightarrow> string" where
  "outOfPage_loadedNeedScroll fmt = outOfPage_loaded fmt @ '' Scroll page to activate.''"

definition outOfPage_loadedUrl :: "string option \<Rightarrow> string" where
  \<open>outOfPage_loadedUrl fmt = ''<a href="https://www.example.com">'' @ outOfPage_loaded fmt @ ''</a>''\<close>

definition outOfPage_loading :: "string option \<Rightarrow> string" where
  "outOfPage_loading fmt = template_str fmt @ '' is loading...''"

definition outOfPage_notSupported :: "string option \<Rightarrow> string" where
  "outOfPage_notSupported fmt = template_str fmt @ '' is not supported on this page.''"

definition status_container :: "string \<Rightarrow> string" where
  "status_container ident = ''document.getElementById('' @ [CHR 0x27] @ ident @ [CHR 0x27] @ '')''"

definition status_update :: "string \<Rightarrow> string \<Rightarrow> string" where
  "status_update ident content =
     status_container ident @ ''!.innerText = '' @ [CHR 0x27] @ content @ [CHR 0x27]"

definition status_updateHtml :: "string \<Rightarrow> string \<Rightarrow> string" where
  "status_updateHtml ident content =
     status_container ident @ ''!.innerHTML = '' @ [CHR 0x27] @ content @ [CHR 0x27]"

subsection \<open>Slot identifiers\<close>

definition getSlotIdentifer :: "SampleConfig \<Rightarrow> ref \<Rightarrow> string" where
  "getSlotIdentifer config slotConfig =
     ''slot'' @ Number_toString (indexOf (slots config) slotConfig + 1)"

subsection \<open>Internal helper methods\<close>

text \<open>
  \<open>outOfPageFormatNames\<close> (model/settings) is a parameter \<open>names\<close>: a table from format
  keys to display names. A lookup with an absent format uses the property key
  \<open>undefined\<close>, as JavaScript does.
\<close>

definition formatName :: "(string \<Rightarrow> string option) \<Rightarrow> string option \<Rightarrow> string option" where
  "formatName names fmt = names (template_str fmt)"

definition getSlotOnloadCallback ::
  "(string \<Rightarrow> string option) \<Rightarrow> store \<Rightarrow> SampleConfig \<Rightarrow> ref \<Rightarrow> string" where
  "getSlotOnloadCallback names h config slot =
     (let ident = getSlotIdentifer config slot;
          formatStr = formatName names (format (h slot));
          statusUpdate =
            (if format (h slot) = Some ''INTERSTITIAL''
               then status_updateHtml ident (outOfPage_loadedUrl formatStr)
             else if format (h slot) = Some ''TOP_ANCHOR''
               then status_update ident (outOfPage_loadedNeedScroll formatStr)
             else status_update ident (outOfPage_loaded formatStr))
      in ''\<newline>    if('' @ ident @ '' === event.slot) {\<newline>      '' @ statusUpdate
           @ '';\<newline>    }\<newline>  '')"

subsection \<open>Public exports\<close>

definition cmd_init :: string where
  "cmd_init = api_cmdInit @ '';''"

definition cmd_push :: "string \<Rightarrow> string" where
  "cmd_push content = api_cmdPush content @ '';''"

definition enableServices :: string where
  "enableServices = api_enableServices @ '';''"

definition declareSlot :: "SampleConfig \<Rightarrow> ref \<Rightarrow> string" where
  "declareSlot config slotConfig = api_declareSlot (getSlotIdentifer config slotConfig) @ '';''"

definition defineSlot :: "(jsdata \<Rightarrow> string) \<Rightarrow> store \<Rightarrow> SampleConfig \<Rightarrow> ref \<Rightarrow> string" where
  "defineSlot san h config slotConfig =
     (let slotDef = api_defineSlot san (h slotConfig) (getSlotIdentifer config slotConfig) @ ''!''
      in addInlineSlotSettings san (h slotConfig) slotDef)"

text \<open>
  \<open>pubads.addEventListener\<close> (codegen/api/pubads) is the parameter \<open>listen\<close>.
\<close>

definition defineOutOfPageSlot ::
  "(jsdata \<Rightarrow> string) \<Rightarrow> (string \<Rightarrow> string option) \<Rightarrow> (string \<Rightarrow> string \<Rightarrow> string)
     \<Rightarrow> store \<Rightarrow> SampleConfig \<Rightarrow> ref \<Rightarrow> string" where
  "defineOutOfPageSlot san names listen h config slotConfig =
     (let slotVar = getSlotIdentifer config slotConfig;
          formatString = formatName names (format (h slotConfig))
      in trim
        (''\<newline>    '' @ slotVar @ '' = '' @ api_defineOutOfPageSlot san (h slotConfig)
          @ '';\<newline>\<newline>    // '' @ outOfPage_comment formatString
          @ ''\<newline>    if(!'' @ slotVar @ '') {\<newline>      ''
          @ status_update slotVar (outOfPage_notSupported formatString)
          @ '';\<newline>    } else {\<newline>      ''
          @ addInlineSlotSettings san (h slotConfig) slotVar
          @ '';\<newline>\<newline>      ''
          @ status_update slotVar (outOfPage_loading formatString)
          @ '';\<newline>\<newline>      ''
          @ listen ''slotOnload'' (getSlotOnloadCallback names h config slotConfig)
          @ ''\<newline>    }\<newline>  ''))"

text \<open>
  \<open>display\<close> reads \<open>slotConfig.format\<close>; on \<open>undefined\<close> (what an out-of-range array
  access hands it) that read throws a \<open>TypeError\<close>.
\<close>

definition display :: "store \<Rightarrow> SampleConfig \<Rightarrow> ref option \<Rightarrow> js_error + string" where
  "display h config slotConfig =
     (case slotConfig of
        None \<Rightarrow> Inl TypeError
      | Some slot \<Rightarrow>
          (let ident = getSlotIdentifer config slot;
               idOrSlot = (if truthy (format (h slot)) then ident
                           else [CHR 0x27] @ ident @ [CHR 0x27])
           in Inr (if truthy (format (h slot))
                   then ''if ('' @ idOrSlot @ '') { '' @ api_display idOrSlot @ ''; }''
                   else api_display idOrSlot @ '';'')))"

text \<open>\<open>config.page?.sra\<close> as a condition.\<close>

definition sra_enabled :: "SampleConfig \<Rightarrow> bool" where
  "sra_enabled config =
     (case page config of
        None \<Rightarrow> False
      | Some p \<Rightarrow> (case sra p of None \<Rightarrow> False | Some b \<Rightarrow> b))"

text \<open>The index the single-request branch of \<open>displayAll\<close> computes.\<close>

definition sra_index :: "store \<Rightarrow> SampleConfig \<Rightarrow> int" where
  "sra_index h config =
     (let index = findIndex (\<lambda>s. \<not> truthy (format (h s))) (slots config)
      in if index = - 1 then int (length (slots config)) - 1 else index)"

text \<open>The \<open>forEach\<close> of the other branch, appending to \<open>displayAll\<close>.\<close>

fun forEach_display :: "store \<Rightarrow> SampleConfig \<Rightarrow> ref list \<Rightarrow> string \<Rightarrow> js_error + string" where
  "forEach_display h config [] acc = Inr acc"
| "forEach_display h config (slot # rest) acc =
     (case display h config (Some slot) of
        Inl e \<Rightarrow> Inl e
      | Inr code \<Rightarrow> forEach_display h config rest (acc @ code))"

definition displayAll :: "store \<Rightarrow> SampleConfig \<Rightarrow> js_error + string" where
  "displayAll h config =
     (if sra_enabled config
      then display h config (array_get (slots config) (sra_index h config))
      else forEach_display h config (slots config) [])"


section \<open>JSON text\<close>

text \<open>
  \<open>JSON.stringify\<close> and \<open>JSON.parse\<close> are built-ins of the JavaScript engine. They are
  modelled on the JSON values below, with the numbers above and strings of code units
  below 256. \<open>Unmodelled\<close> marks an input for which the model gives no verdict; wherever
  the model gives a result, it is the engine's.
\<close>

datatype jsval =
    JNull
  | JBool bool
  | JNumber number
  | JString string
  | JArray "jsval list"
  | JObject "(string \<times> jsval) list"

subsection \<open>The values that stand for JavaScript values\<close>

definition is_digit :: "char \<Rightarrow> bool" where
  "is_digit ch = (48 \<le> (of_char ch :: nat) \<and> (of_char ch :: nat) \<le> 57)"

definition digit_val :: "char \<Rightarrow> int" where
  "digit_val ch = of_char ch - 48"

definition digits_value :: "string \<Rightarrow> int" where
  "digits_value ds = foldl (\<lambda>acc ch. acc * 10 + digit_val ch) 0 ds"

text \<open>
  A property name that is an array index: a decimal numeral without leading zero below
  \<open>2^32 - 1\<close>. The engine enumerates such properties first, in numeric order.
\<close>

definition is_array_index :: "string \<Rightarrow> bool" where
  "is_array_index k =
     (k \<noteq> [] \<and> list_all is_digit k \<and> (hd k \<noteq> CHR ''0'' \<or> length k = 1)
      \<and> digits_value k < 4294967295)"

text \<open>
  A value stands for a JavaScript value when its integers are safe, and every object has
  each property name once and no array index among its names.
\<close>

fun wf_json :: "jsval \<Rightarrow> bool" where
  "wf_json (JNumber n) = (case n of Finite i \<Rightarrow> safe_integer i | _ \<Rightarrow> True)"
| "wf_json (JArray vs) = list_all wf_json vs"
| "wf_json (JObject kvs) =
     (distinct (map fst kvs) \<and> list_all (\<lambda>m. \<not> is_array_index (fst m) \<and> wf_json (snd m)) kvs)"
| "wf_json v = True"

subsection \<open>Serialization\<close>

definition hex_char :: "nat \<Rightarrow> char" where
  "hex_char d = ''0123456789abcdef'' ! d"

text \<open>The escapes of \<open>QuoteJSONString\<close>: the quote, the backslash and the control characters.\<close>

definition json_escape :: "char \<Rightarrow> string" where
  "json_escape ch =
     (if ch = CHR 0x22 then [CHR 0x5C, CHR 0x22]
      else if ch = CHR 0x5C then [CHR 0x5C, CHR 0x5C]
      else if ch = CHR 0x08 then [CHR 0x5C, CHR ''b'']
      else if ch = CHR 0x0C then [CHR 0x5C, CHR ''f'']
      else if ch = CHR 0x0A then [CHR 0x5C, CHR ''n'']
      else if ch = CHR 0x0D then [CHR 0x5C, CHR ''r'']
      else if ch = CHR 0x09 then [CHR 0x5C, CHR ''t'']
      else if of_char ch < (32 :: nat)
        then [CHR 0x5C, CHR ''u'', CHR ''0'', CHR ''0'',
              hex_char (of_char ch div 16), hex_char (of_char ch mod 16)]
      else [ch])"

definition QuoteJSONString :: "string \<Rightarrow> string" where
  "QuoteJSONString s = CHR 0x22 # concat (map json_escape s) @ [CHR 0x22]"

text \<open>A finite number is written in decimal, \<open>NaN\<close> and the infinities as \<open>null\<close>.\<close>

definition json_number :: "number \<Rightarrow> string" where
  "json_number n = (case n of Finite i \<Rightarrow> Number_toString i | _ \<Rightarrow> ''null'')"

text \<open>
  Serialization without indentation. \<open>stringify_elements\<close> and \<open>stringify_members\<close>
  write what follows the opening bracket, up to and including the closing one.
  \<open>stringify\<close> is the text of a value that stands for a JavaScript value; on any other
  value \<open>JSON_stringify\<close> gives no verdict.
\<close>

fun stringify :: "jsval \<Rightarrow> string"
  and stringify_elements :: "jsval list \<Rightarrow> string"
  and stringify_members :: "(string \<times> jsval) list \<Rightarrow> string" where
  "stringify JNull = ''null''"
| "stringify (JBool b) = (if b then ''true'' else ''false'')"
| "stringify (JNumber n) = json_number n"
| "stringify (JString s) = QuoteJSONString s"
| "stringify (JArray vs) = CHR ''['' # stringify_elements vs"
| "stringify (JObject kvs) = CHR ''{'' # stringify_members kvs"
| "stringify_elements [] = '']''"
| "stringify_elements [v] = stringify v @ '']''"
| "stringify_elements (v # w # vs) = stringify v @ '','' @ stringify_elements (w # vs)"
| "stringify_members [] = ''}''"
| "stringify_members [(k, v)] = QuoteJSONString k @ '':'' @ stringify v @ ''}''"
| "stringify_members ((k, v) # m # kvs) =
     QuoteJSONString k @ '':'' @ stringify v @ '','' @ stringify_members (m # kvs)"

definition JSON_stringify :: "jsval \<Rightarrow> js_error + string" where
  "JSON_stringify v = (if wf_json v then Inr (stringify v) else Inl Unmodelled)"

subsection \<open>Parsing\<close>

definition json_ws :: "char \<Rightarrow> bool" where
  "json_ws ch = (ch = CHR 0x20 \<or> ch = CHR 0x09 \<or> ch = CHR 0x0A \<or> ch = CHR 0x0D)"

definition skip_ws :: "string \<Rightarrow> string" where
  "skip_ws s = dropWhile json_ws s"

definition hex_val :: "char \<Rightarrow> nat option" where
  "hex_val ch =
     (let n = of_char ch :: nat
      in if 48 \<le> n \<and> n \<le> 57 then Some (n - 48)
         else if 97 \<le> n \<and> n \<le> 102 then Some (n - 87)
         else if 65 \<le> n \<and> n \<le> 70 then Some (n - 55)
         else None)"

definition hex4 :: "char \<Rightarrow> char \<Rightarrow> char \<Rightarrow> char \<Rightarrow> nat option" where
  "hex4 a b c d =
     (case (hex_val a, hex_val b, hex_val c, hex_val d) of
        (Some w, Some x, Some y, Some z) \<Rightarrow> Some (((w * 16 + x) * 16 + y) * 16 + z)
      | _ \<Rightarrow> None)"

definition unescape :: "char \<Rightarrow> char option" where
  "unescape e =
     (if e = CHR 0x22 then Some (CHR 0x22)
      else if e = CHR 0x5C then Some (CHR 0x5C)
      else if e = CHR ''/'' then Some (CHR ''/'')
      else if e = CHR ''b'' then Some (CHR 0x08)
      else if e = CHR ''f'' then Some (CHR 0x0C)
      else if e = CHR ''n'' then Some (CHR 0x0A)
      else if e = CHR ''r'' then Some (CHR 0x0D)
      else if e = CHR ''t'' then Some (CHR 0x09)
      else None)"

definition cons_char :: "char \<Rightarrow> js_error + (string \<times> string) \<Rightarrow> js_error + (string \<times> string)" where
  "cons_char ch r = (case r of Inl e \<Rightarrow> Inl e | Inr (s, rest) \<Rightarrow> Inr (ch # s, rest))"

text \<open>The characters of a string literal after its opening quote, and the rest of the text.\<close>

fun parse_chars :: "string \<Rightarrow> js_error + (string \<times> string)" where
  "parse_chars [] = Inl SyntaxError"
| "parse_chars (ch # cs) =
     (if ch = CHR 0x22 then Inr ([], cs)
      else if ch = CHR 0x5C then
        (case cs of
           [] \<Rightarrow> Inl SyntaxError
         | e # cs1 \<Rightarrow>
             if e = CHR ''u'' then
               (case cs1 of
                  h1 # h2 # h3 # h4 # cs2 \<Rightarrow>
                    (case hex4 h1 h2 h3 h4 of
                       None \<Rightarrow> Inl SyntaxError
                     | Some n \<Rightarrow>
                         if n < 256 then cons_char (char_of n) (parse_chars cs2)
                         else Inl Unmodelled)
                | _ \<Rightarrow> Inl SyntaxError)
             else
               (case unescape e of
                  None \<Rightarrow> Inl SyntaxError
                | Some c \<Rightarrow> cons_char c (parse_chars cs1)))
      else if of_char ch < (32 :: nat) then Inl SyntaxError
      else cons_char ch (parse_chars cs))"

text \<open>
  A number: an optional minus sign and an integer part without a leading zero. Outside
  the model: a fraction or an exponent after it, an integer beyond the safe range (the
  engine rounds it) and \<open>-0\<close>.
\<close>

definition parse_digits :: "bool \<Rightarrow> string \<Rightarrow> js_error + (int \<times> string)" where
  "parse_digits negative s =
     (let ds = takeWhile is_digit s;
          rest = dropWhile is_digit s
      in if ds = [] then Inl SyntaxError
         else if hd ds = CHR ''0'' \<and> 1 < length ds then Inl SyntaxError
         else if rest \<noteq> [] \<and> hd rest \<in> {CHR ''.'', CHR ''e'', CHR ''E''} then Inl Unmodelled
         else if \<not> safe_integer (digits_value ds) \<or> (negative \<and> digits_value ds = 0)
           then Inl Unmodelled
         else Inr (if negative then - digits_value ds else digits_value ds, rest))"

definition parse_number :: "string \<Rightarrow> js_error + (int \<times> string)" where
  "parse_number s =
     (if s \<noteq> [] \<and> hd s = CHR ''-'' then parse_digits True (tl s) else parse_digits False s)"

text \<open>
  Building the object from its members in text order: a repeated name overwrites the
  earlier value in place.
\<close>

fun obj_put :: "string \<Rightarrow> jsval \<Rightarrow> (string \<times> jsval) list \<Rightarrow> (string \<times> jsval) list" where
  "obj_put k v [] = [(k, v)]"
| "obj_put k v ((k', v') # kvs) =
     (if k' = k then (k', v) # kvs else (k', v') # obj_put k v kvs)"

definition make_object :: "(string \<times> jsval) list \<Rightarrow> js_error + jsval" where
  "make_object members =
     (if list_ex (\<lambda>m. is_array_index (fst m)) members then Inl Unmodelled
      else Inr (JObject (foldl (\<lambda>obj m. obj_put (fst m) (snd m) obj) [] members)))"

text \<open>
  Recursive descent. The first argument bounds the recursion. \<open>JSON_parse\<close> starts it above
  twice the length of the text: a nested call spends one unit on a text at least one
  character shorter, a sibling two units on a text at least two characters shorter. The
  bound is therefore never reached from \<open>JSON_parse\<close> (see \<open>JSON_parse_bound\<close> below).
\<close>

fun parse_value :: "nat \<Rightarrow> string \<Rightarrow> js_error + (jsval \<times> string)"
  and parse_elements :: "nat \<Rightarrow> string \<Rightarrow> js_error + (jsval list \<times> string)"
  and parse_members :: "nat \<Rightarrow> string \<Rightarrow> js_error + ((string \<times> jsval) list \<times> string)" where
  "parse_value 0 s = Inl Unmodelled"
| "parse_value (Suc n) s =
     (case skip_ws s of
        [] \<Rightarrow> Inl SyntaxError
      | ch # cs \<Rightarrow>
          if ch = CHR ''n'' then
            (if take 4 (ch # cs) = ''null'' then Inr (JNull, drop 4 (ch # cs)) else Inl SyntaxError)
          else if ch = CHR ''t'' then
            (if take 4 (ch # cs) = ''true'' then Inr (JBool True, drop 4 (ch # cs))
             else Inl SyntaxError)
          else if ch = CHR ''f'' then
            (if take 5 (ch # cs) = ''false'' then Inr (JBool False, drop 5 (ch # cs))
             else Inl SyntaxError)
          else if ch = CHR 0x22 then
            (case parse_chars cs of
               Inl e \<Rightarrow> Inl e
             | Inr (str, rest) \<Rightarrow> Inr (JString str, rest))
          else if ch = CHR ''['' then
            (case skip_ws cs of
               [] \<Rightarrow> Inl SyntaxError
             | c1 # rest1 \<Rightarrow>
                 if c1 = CHR '']'' then Inr (JArray [], rest1)
                 else (case parse_elements n (c1 # rest1) of
                         Inl e \<Rightarrow> Inl e
                       | Inr (vs, rest) \<Rightarrow> Inr (JArray vs, rest)))
          else if ch = CHR ''{'' then
            (case skip_ws cs of
               [] \<Rightarrow> Inl SyntaxError
             | c1 # rest1 \<Rightarrow>
                 if c1 = CHR ''}'' then Inr (JObject [], rest1)
                 else (case parse_members n (c1 # rest1) of
                         Inl e \<Rightarrow> Inl e
                       | Inr (members, rest) \<Rightarrow>
                           (case make_object members of
                              Inl e \<Rightarrow> Inl e
                            | Inr obj \<Rightarrow> Inr (obj, rest))))
          else if ch = CHR ''-'' \<or> is_digit ch then
            (case parse_number (ch # cs) of
               Inl e \<Rightarrow> Inl e
             | Inr (i, rest) \<Rightarrow> Inr (JNumber (Finite i), rest))
          else Inl SyntaxError)"
| "parse_elements 0 s = Inl Unmodelled"
| "parse_elements (Suc n) s =
     (case parse_value n s of
        Inl e \<Rightarrow> Inl e
      | Inr (v, rest) \<Rightarrow>
          (case skip_ws rest of
             [] \<Rightarrow> Inl SyntaxError
           | ch # cs \<Rightarrow>
               if ch = CHR '','' then
                 (case parse_elements n cs of
                    Inl e \<Rightarrow> Inl e
                  | Inr (vs, rest') \<Rightarrow> Inr (v # vs, rest'))
               else if ch = CHR '']'' then Inr ([v], cs)
               else Inl SyntaxError))"
| "parse_members 0 s = Inl Unmodelled"
| "parse_members (Suc n) s =
     (case skip_ws s of
        [] \<Rightarrow> Inl SyntaxError
      | q # s1 \<Rightarrow>
          if q \<noteq> CHR 0x22 then Inl SyntaxError
          else
            (case parse_chars s1 of
               Inl e \<Rightarrow> Inl e
             | Inr (k, s2) \<Rightarrow>
                 (case skip_ws s2 of
                    [] \<Rightarrow> Inl SyntaxError
                  | colon # s3 \<Rightarrow>
                      if colon \<noteq> CHR '':'' then Inl SyntaxError
                      else
                        (case parse_value n s3 of
                           Inl e \<Rightarrow> Inl e
                         | Inr (v, s4) \<Rightarrow>
                             (case skip_ws s4 of
                                [] \<Rightarrow> Inl SyntaxError
                              | ch # cs \<Rightarrow>
                                  if ch = CHR '','' then
                                    (case parse_members n cs of
                                       Inl e \<Rightarrow> Inl e
                                     | Inr (members, rest) \<Rightarrow> Inr ((k, v) # members, rest))
                                  else if ch = CHR ''}'' then Inr ([(k, v)], cs)
                                  else Inl SyntaxError)))))"

definition JSON_parse :: "string \<Rightarrow> js_error + jsval" where
  "JSON_parse text =
     (case parse_value (Suc (2 * length text)) text of
        Inl e \<Rightarrow> Inl e
      | Inr (v, rest) \<Rightarrow> if skip_ws rest = [] then Inr v else Inl SyntaxError)"


section \<open>base64url (util/base64url)\<close>

text \<open>
  Modelled from the spec: the module \<open>util/base64url\<close> (\<open>encode\<close>, \<open>decode\<close>) is not among
  the sources; the spec names the encoding only ("base64url + JSON"). The model is the
  URL-safe base64 alphabet without padding, on strings of 8-bit code units: three bytes
  become four characters of six bits each.
\<close>

definition b64url_alphabet :: string where
  "b64url_alphabet = ''ABCDEFGHIJKLMNOPQRSTUVWXYZabcdefghijklmnopqrstuvwxyz0123456789-_''"

definition b64_char :: "nat \<Rightarrow> char" where
  "b64_char n = b64url_alphabet ! n"

definition b64_index :: "char \<Rightarrow> nat option" where
  "b64_index ch = map_of (zip b64url_alphabet [0 ..< length b64url_alphabet]) ch"

fun b64_sextets :: "nat list \<Rightarrow> nat list" where
  "b64_sextets (a # b # c # bytes) =
     [a div 4, (a mod 4) * 16 + b div 16, (b mod 16) * 4 + c div 64, c mod 64]
       @ b64_sextets bytes"
| "b64_sextets [a, b] = [a div 4, (a mod 4) * 16 + b div 16, (b mod 16) * 4]"
| "b64_sextets [a] = [a div 4, (a mod 4) * 16]"
| "b64_sextets [] = []"

fun b64_bytes :: "nat list \<Rightarrow> nat list option" where
  "b64_bytes (p # q # r # s # sextets) =
     (case b64_bytes sextets of
        None \<Rightarrow> None
      | Some bytes \<Rightarrow>
          Some ([p * 4 + q div 16, (q mod 16) * 16 + r div 4, (r mod 4) * 64 + s] @ bytes))"
| "b64_bytes [p, q, r] = Some [p * 4 + q div 16, (q mod 16) * 16 + r div 4]"
| "b64_bytes [p, q] = Some [p * 4 + q div 16]"
| "b64_bytes [p] = None"
| "b64_bytes [] = Some []"

definition base64url_encode :: "string \<Rightarrow> string" where
  "base64url_encode s = map b64_char (b64_sextets (map of_char s))"

definition base64url_decode :: "string \<Rightarrow> js_error + string" where
  "base64url_decode s =
     (case those (map b64_index s) of
        None \<Rightarrow> Inl InvalidCharacterError
      | Some sextets \<Rightarrow>
          (case b64_bytes sextets of
             None \<Rightarrow> Inl InvalidCharacterError
           | Some bytes \<Rightarrow> Inr (map char_of bytes)))"


section \<open>The configurator page (entry point)\<close>

text \<open>
  The entry point reads the \<open>config\<close> parameter of the URL hash; when it is truthy (neither
  \<open>null\<close> nor the empty string) it decodes and parses it, otherwise the config is
  \<open>{slots: []}\<close>. An exception of the decoder or of the parser ends the initialization.
  \<open>urlHash.getParameter\<close> (util/url-hash), \<open>base64url.decode\<close> and \<open>JSON.parse\<close> are the
  parameters \<open>getParameter\<close>, \<open>decode\<close> and \<open>parse\<close>.
\<close>

definition default_config :: jsval where
  "default_config = JObject [(''slots'', JArray [])]"

definition init_config ::
  "(string \<Rightarrow> string option) \<Rightarrow> (string \<Rightarrow> js_error + string)
     \<Rightarrow> (string \<Rightarrow> js_error + jsval) \<Rightarrow> js_error + jsval" where
  "init_config getParameter decode parse =
     (let configParam = getParameter ''config''
      in if truthy configParam
         then (case decode (the configParam) of
                 Inl e \<Rightarrow> Inl e
               | Inr text \<Rightarrow> parse text)
         else Inr default_config)"


section \<open>A config as a JSON value\<close>

text \<open>
  The object graph of a config as the tree \<open>JSON.stringify\<close> walks: an absent optional
  property is left out, a slot reference is replaced by the slot object it denotes.
\<close>

definition optional :: "string \<Rightarrow> ('a \<Rightarrow> jsval) \<Rightarrow> 'a option \<Rightarrow> (string \<times> jsval) list" where
  "optional name conv field = (case field of None \<Rightarrow> [] | Some x \<Rightarrow> [(name, conv x)])"

fun to_json :: "jsdata \<Rightarrow> jsval" where
  "to_json (Num n) = JNumber n"
| "to_json (Str s) = JString s"
| "to_json (Arr ds) = JArray (map to_json ds)"

definition kv_json :: "SampleTargetingKV \<Rightarrow> jsval" where
  "kv_json kv = JObject [(''key'', JString (key kv)), (''value'', to_json (value kv))]"

definition targeting_json :: "SampleTargetingKV list \<Rightarrow> jsval" where
  "targeting_json kvs = JArray (map kv_json kvs)"

definition privacy_json :: "SamplePrivacyConfig \<Rightarrow> jsval" where
  "privacy_json p =
     JObject (optional ''ltd'' JBool (ltd p) @ optional ''npa'' JBool (npa p)
              @ optional ''rdp'' JBool (rdp p) @ optional ''tfcd'' JBool (tfcd p)
              @ optional ''tfua'' JBool (tfua p))"

definition page_json :: "SamplePageConfig \<Rightarrow> jsval" where
  "page_json p =
     JObject (optional ''privacy'' privacy_json (privacy p) @ optional ''sra'' JBool (sra p)
              @ optional ''targeting'' targeting_json (page_targeting p))"

definition slot_json :: "SampleSlotConfig \<Rightarrow> jsval" where
  "slot_json s =
     JObject ([(''adUnit'', JString (adUnit s))] @ optional ''format'' JString (format s)
              @ [(''size'', to_json (slot_size s))] @ optional ''targeting'' targeting_json (targeting s))"

definition template_json :: "SampleTemplateConfig \<Rightarrow> jsval" where
  "template_json t =
     JObject (optional ''type'' to_json (template_type t)
              @ optional ''target'' to_json (target t))"

definition config_json :: "store \<Rightarrow> SampleConfig \<Rightarrow> jsval" where
  "config_json h config =
     JObject (optional ''page'' page_json (page config)
              @ [(''slots'', JArray (map (\<lambda>s. slot_json (h s)) (slots config)))]
              @ optional ''template'' template_json (template config))"

text \<open>
  The typed code reads a parsed value through the \<open>SampleConfig\<close> interface, property by
  property, and checks nothing at run time. \<open>read_config\<close> is that reading made explicit:
  it gives the page settings, the slot objects in order and the template options, and
  \<open>None\<close> where a property does not have the type the interface declares (an absent
  optional property is \<open>undefined\<close>). Two configs are structurally equal when they agree on
  what is read.
\<close>

fun of_json :: "jsval \<Rightarrow> jsdata option" where
  "of_json (JNumber n) = Some (Num n)"
| "of_json (JString s) = Some (Str s)"
| "of_json (JArray vs) = map_option Arr (those (map of_json vs))"
| "of_json v = None"

definition properties :: "jsval \<Rightarrow> (string \<rightharpoonup> jsval) option" where
  "properties v = (case v of JObject kvs \<Rightarrow> Some (map_of kvs) | _ \<Rightarrow> None)"

definition read_bool :: "jsval \<Rightarrow> bool option" where
  "read_bool v = (case v of JBool b \<Rightarrow> Some b | _ \<Rightarrow> None)"

definition read_string :: "jsval \<Rightarrow> string option" where
  "read_string v = (case v of JString s \<Rightarrow> Some s | _ \<Rightarrow> None)"

definition read_array :: "(jsval \<Rightarrow> 'a option) \<Rightarrow> jsval \<Rightarrow> 'a list option" where
  "read_array rd v = (case v of JArray vs \<Rightarrow> those (map rd vs) | _ \<Rightarrow> None)"

definition required :: "(jsval \<Rightarrow> 'a option) \<Rightarrow> jsval option \<Rightarrow> 'a option" where
  "required rd field = (case field of None \<Rightarrow> None | Some v \<Rightarrow> rd v)"

definition read_optional :: "(jsval \<Rightarrow> 'a option) \<Rightarrow> jsval option \<Rightarrow> 'a option option" where
  "read_optional rd field = (case field of None \<Rightarrow> Some None | Some v \<Rightarrow> map_option Some (rd v))"

definition read_kv :: "jsval \<Rightarrow> SampleTargetingKV option" where
  "read_kv v =
     do {
       ps \<leftarrow> properties v;
       k \<leftarrow> required read_string (ps ''key'');
       x \<leftarrow> required of_json (ps ''value'');
       Some \<lparr>key = k, value = x\<rparr>
     }"

definition read_privacy :: "jsval \<Rightarrow> SamplePrivacyConfig option" where
  "read_privacy v =
     do {
       ps \<leftarrow> properties v;
       a \<leftarrow> read_optional read_bool (ps ''ltd'');
       b \<leftarrow> read_optional read_bool (ps ''npa'');
       c \<leftarrow> read_optional read_bool (ps ''rdp'');
       d \<leftarrow> read_optional read_bool (ps ''tfcd'');
       e \<leftarrow> read_optional read_bool (ps ''tfua'');
       Some \<lparr>ltd = a, npa = b, rdp = c, tfcd = d, tfua = e\<rparr>
     }"

definition read_page :: "jsval \<Rightarrow> SamplePageConfig option" where
  "read_page v =
     do {
       ps \<leftarrow> properties v;
       p \<leftarrow> read_optional read_privacy (ps ''privacy'');
       s \<leftarrow> read_optional read_bool (ps ''sra'');
       t \<leftarrow> read_optional (read_array read_kv) (ps ''targeting'');
       Some \<lparr>privacy = p, sra = s, page_targeting = t\<rparr>
     }"

definition read_slot :: "jsval \<Rightarrow> SampleSlotConfig option" where
  "read_slot v =
     do {
       ps \<leftarrow> properties v;
       a \<leftarrow> required read_string (ps ''adUnit'');
       f \<leftarrow> read_optional read_string (ps ''format'');
       s \<leftarrow> required of_json (ps ''size'');
       t \<leftarrow> read_optional (read_array read_kv) (ps ''targeting'');
       Some \<lparr>adUnit = a, format = f, slot_size = s, targeting = t\<rparr>
     }"

definition read_template :: "jsval \<Rightarrow> SampleTemplateConfig option" where
  "read_template v =
     do {
       ps \<leftarrow> properties v;
       a \<leftarrow> read_optional of_json (ps ''type'');
       b \<leftarrow> read_optional of_json (ps ''target'');
       Some \<lparr>template_type = a, target = b\<rparr>
     }"

definition read_config ::
  "jsval \<Rightarrow> (SamplePageConfig option \<times> SampleSlotConfig list \<times> SampleTemplateConfig option) option" where
  "read_config v =
     do {
       ps \<leftarrow> properties v;
       p \<leftarrow> read_optional read_page (ps ''page'');
       ss \<leftarrow> required (read_array read_slot) (ps ''slots'');
       t \<leftarrow> read_optional read_template (ps ''template'');
       Some (p, ss, t)
     }"

text \<open>
  The configs whose numbers are safe integers: those on which the serialization keeps
  every number.
\<close>

fun safe_data :: "jsdata \<Rightarrow> bool" where
  "safe_data (Num n) = (case n of Finite i \<Rightarrow> safe_integer i | _ \<Rightarrow> False)"
| "safe_data (Str s) = True"
| "safe_data (Arr ds) = list_all safe_data ds"

definition safe_targeting :: "SampleTargetingKV list option \<Rightarrow> bool" where
  "safe_targeting t =
     (case t of None \<Rightarrow> True | Some kvs \<Rightarrow> list_all (\<lambda>kv. safe_data (value kv)) kvs)"

definition safe_option :: "jsdata option \<Rightarrow> bool" where
  "safe_option x = (case x of None \<Rightarrow> True | Some d \<Rightarrow> safe_data d)"

definition safe_numbers :: "store \<Rightarrow> SampleConfig \<Rightarrow> bool" where
  "safe_numbers h config =
     (list_all (\<lambda>s. safe_data (slot_size (h s)) \<and> safe_targeting (targeting (h s)))
        (slots config)
      \<and> (case page config of None \<Rightarrow> True | Some p \<Rightarrow> safe_targeting (page_targeting p))
      \<and> (case template config of
            None \<Rightarrow> True
          | Some t \<Rightarrow> safe_option (template_type t) \<and> safe_option (target t)))"

text \<open>
  Modelled from the spec: the serializer that writes the config into the URL hash is not
  among the sources; the spec describes it as JSON serialization followed by base64url
  encoding.
\<close>

definition encode_config :: "store \<Rightarrow> SampleConfig \<Rightarrow> js_error + string" where
  "encode_config h config =
     (case JSON_stringify (config_json h config) of
        Inl e \<Rightarrow> Inl e
      | Inr text \<Rightarrow> Inr (base64url_encode text))"

definition hash_with :: "string \<Rightarrow> string \<Rightarrow> string option" where
  "hash_with param name = (if name = ''config'' then Some param else None)"


section \<open>Auxiliary notions for the round trip\<close>

text \<open>
  What may follow a value in a serialized text, and what a serialized value starts with.
\<close>

definition value_end :: "string \<Rightarrow> bool" where
  "value_end rest = (rest = [] \<or> hd rest \<in> {CHR '','', CHR '']'', CHR ''}''})"

definition value_start :: "char \<Rightarrow> bool" where
  "value_start c = (c \<in> {CHR ''n'', CHR ''t'', CHR ''f'', CHR 0x22, CHR ''['', CHR ''{'', CHR ''-''}
                    \<or> is_digit c)"

text \<open>The values on which the parser inverts the serializer: no number is lost.\<close>

fun exact_json :: "jsval \<Rightarrow> bool" where
  "exact_json (JNumber n) = (case n of Finite i \<Rightarrow> safe_integer i | _ \<Rightarrow> False)"
| "exact_json (JArray vs) = list_all exact_json vs"
| "exact_json (JObject kvs) =
     (distinct (map fst kvs)
      \<and> list_all (\<lambda>m. \<not> is_array_index (fst m) \<and> exact_json (snd m)) kvs)"
| "exact_json v = True"

section \<open>Example configurations\<close>

text \<open>
  A store with three slot objects (a banner with targeting, a top anchor and an
  interstitial) and configurations over it; \<open>sample_san\<close> (and \<open>mask_san\<close>, which hides
  whatever it is given), \<open>sample_listen\<close> and \<open>sample_names\<close> stand in for \<open>sanitizeJs\<close>,
  \<open>pubads.addEventListener\<close> and \<open>outOfPageFormatNames\<close> in the examples only.
\<close>

definition banner_slot :: SampleSlotConfig where
  "banner_slot =
     \<lparr>adUnit = ''/6355419/Travel/Europe'', format = None,
      slot_size = Arr [Num (Finite 300), Num (Finite 250)],
      targeting = Some [\<lparr>key = ''color'', value = Str ''red''\<rparr>,
                        \<lparr>key = ''interests'', value = Arr [Str ''sports'', Str ''music'']\<rparr>]\<rparr>"

definition anchor_slot :: SampleSlotConfig where
  "anchor_slot =
     \<lparr>adUnit = ''/6355419/Travel'', format = Some ''TOP_ANCHOR'',
      slot_size = Arr [], targeting = None\<rparr>"

definition interstitial_slot :: SampleSlotConfig where
  "interstitial_slot =
     \<lparr>adUnit = ''/6355419/Travel/Europe/France'', format = Some ''INTERSTITIAL'',
      slot_size = Arr [], targeting = None\<rparr>"

definition rewarded_slot :: SampleSlotConfig where
  "rewarded_slot =
     \<lparr>adUnit = ''/6355419/Travel/Asia'', format = Some ''REWARDED'',
      slot_size = Arr [], targeting = None\<rparr>"

definition sample_store :: store where
  "sample_store r =
     (if r = 3 then banner_slot else if r = 5 then anchor_slot
      else if r = 9 then rewarded_slot else interstitial_slot)"

definition sra_page :: SamplePageConfig where
  "sra_page = \<lparr>privacy = None, sra = Some True, page_targeting = None\<rparr>"

definition sra_config :: SampleConfig where
  "sra_config = \<lparr>page = Some sra_page, slots = [7, 3, 5], template = None\<rparr>"

definition sra_oop_config :: SampleConfig where
  "sra_oop_config = \<lparr>page = Some sra_page, slots = [7, 5], template = None\<rparr>"

definition sra_empty_config :: SampleConfig where
  "sra_empty_config = \<lparr>page = Some sra_page, slots = [], template = None\<rparr>"

definition plain_config :: SampleConfig where
  "plain_config = \<lparr>page = None, slots = [7, 3, 5], template = None\<rparr>"

definition four_slots :: SampleConfig where
  "four_slots = \<lparr>page = None, slots = [7, 3, 5, 9], template = None\<rparr>"

definition renamed_store :: store where
  "renamed_store r = sample_store (r - 10)"

definition renamed_config :: SampleConfig where
  "renamed_config = \<lparr>page = Some sra_page, slots = [17, 13, 15], template = None\<rparr>"

definition retargeted_store :: store where
  "retargeted_store r =
     (if r = 3
      then \<lparr>adUnit = ''/6355419/Travel'/Europe'', format = None,
            slot_size = Arr [Num (Finite 728), Num (Finite 90)],
            targeting = Some [\<lparr>key = ''color'', value = Str ''r'ed''\<rparr>,
                              \<lparr>key = ''interests'', value = Arr []\<rparr>]\<rparr>
      else sample_store r)"

definition sample_san :: "jsdata \<Rightarrow> string" where
  "sample_san v =
     (case v of
        Str s \<Rightarrow> [CHR 0x27] @ filter (\<lambda>ch. ch \<noteq> CHR 0x27) s @ [CHR 0x27]
      | _ \<Rightarrow> ''null'')"

definition sample_listen :: "string \<Rightarrow> string \<Rightarrow> string" where
  "sample_listen event body = ''on('' @ event @ '', (event) => {'' @ body @ ''});''"

definition sample_names :: "string \<Rightarrow> string option" where
  "sample_names =
     [''TOP_ANCHOR'' \<mapsto> ''Top anchor'', ''INTERSTITIAL'' \<mapsto> ''Interstitial'',
      ''REWARDED'' \<mapsto> ''Rewarded'']"

definition mask_san :: "jsdata \<Rightarrow> string" where
  "mask_san v = ''?''"

definition injected_slot :: SampleSlotConfig where
  "injected_slot =
     \<lparr>adUnit = ''/6355419/Travel'', format = Some ''TOP_ANCHOR); alert(1); (0'',
      slot_size = Arr [], targeting = None\<rparr>"

definition injected_store :: store where
  "injected_store r = injected_slot"

definition one_slot :: SampleConfig where
  "one_slot = \<lparr>page = None, slots = [0], template = None\<rparr>"

definition nan_slot :: SampleSlotConfig where
  "nan_slot =
     \<lparr>adUnit = ''/6355419/Travel'', format = None,
      slot_size = Arr [Num NaN, Num (Finite 250)], targeting = None\<rparr>"

definition nan_store :: store where
  "nan_store r = nan_slot"

definition hash_without_config :: "string \<Rightarrow> string option" where
  "hash_without_config name = None"


section \<open>Evaluation of the examples\<close>

lemmas sample_defs =
  banner_slot_def anchor_slot_def interstitial_slot_def rewarded_slot_def sample_store_def
  sra_page_def sra_config_def sra_oop_config_def sra_empty_config_def plain_config_def
  four_slots_def

lemmas ident_defs =
  getSlotIdentifer_def indexOf_def Number_toString_def decimal.simps digit_char_def


section \<open>Slot identifiers\<close>

lemma indexOf_from_notin: "x \<notin> set xs \<Longrightarrow> indexOf_from k xs x = - 1"
  by (induction xs arbitrary: k) auto

lemma indexOf_from_nth:
  "distinct xs \<Longrightarrow> i < length xs \<Longrightarrow> indexOf_from k xs (xs ! i) = int (k + i)"
proof (induction xs arbitrary: k i)
  case Nil
  then show ?case by simp
next
  case (Cons y ys)
  show ?case
  proof (cases i)
    case 0
    then show ?thesis by simp
  next
    case (Suc j)
    with Cons.prems have j: "j < length ys" and d: "distinct ys" and ny: "y \<notin> set ys"
      by auto
    from j ny have "ys ! j \<noteq> y" by (metis nth_mem)
    with Cons.IH [OF d j, of "Suc k"] Suc show ?thesis by simp
  qed
qed

lemma digit_char_inj: "a < 10 \<Longrightarrow> b < 10 \<Longrightarrow> digit_char a = digit_char b \<Longrightarrow> a = b"
proof -
  assume a: "a < 10" and b: "b < 10" and e: "digit_char a = digit_char b"
  have d: "distinct ''0123456789''" by simp
  from a b e show ?thesis
    unfolding digit_char_def by (simp add: nth_eq_iff_index_eq [OF d])
qed

lemma decimal_nonempty: "decimal n \<noteq> []"
  by (subst decimal.simps) simp

lemma decimal_inj: "decimal m = decimal n \<Longrightarrow> m = n"
proof (induction m arbitrary: n rule: decimal.induct)
  case (1 m)
  show ?case
  proof (cases "m < 10")
    case True
    note m = this
    show ?thesis
    proof (cases "n < 10")
      case True
      with m "1.prems" show ?thesis
        by (simp add: decimal.simps [of m] decimal.simps [of n] digit_char_inj)
    next
      case False
      with m "1.prems" decimal_nonempty [of "n div 10"] show ?thesis
        by (simp add: decimal.simps [of m] decimal.simps [of n])
    qed
  next
    case False
    note m = this
    show ?thesis
    proof (cases "n < 10")
      case True
      with m "1.prems" decimal_nonempty [of "m div 10"] show ?thesis
        by (simp add: decimal.simps [of m] decimal.simps [of n])
    next
      case False
      with m "1.prems" have e: "decimal (m div 10) = decimal (n div 10)"
        and d: "digit_char (m mod 10) = digit_char (n mod 10)"
        by (simp_all add: decimal.simps [of m] decimal.simps [of n])
      from "1.IH" [OF m e] have q: "m div 10 = n div 10" .
      from d have r: "m mod 10 = n mod 10" by (simp add: digit_char_inj)
      from q r show ?thesis by (metis div_mult_mod_eq)
    qed
  qed
qed

lemma Number_toString_inj_nonneg:
  "0 \<le> i \<Longrightarrow> 0 \<le> j \<Longrightarrow> Number_toString i = Number_toString j \<Longrightarrow> i = j"
  by (auto simp: Number_toString_def dest: decimal_inj)

lemma getSlotIdentifer_notin:
  "s \<notin> set (slots c) \<Longrightarrow> getSlotIdentifer c s = ''slot0''"
  by (simp add: getSlotIdentifer_def indexOf_def indexOf_from_notin Number_toString_def
      decimal.simps digit_char_def)

lemma getSlotIdentifer_nth:
  "distinct (slots c) \<Longrightarrow> i < length (slots c) \<Longrightarrow>
   getSlotIdentifer c (slots c ! i) = ''slot'' @ Number_toString (int i + 1)"
  by (simp add: getSlotIdentifer_def indexOf_def indexOf_from_nth)

lemma getSlotIdentifer_inj:
  assumes "distinct (slots c)"
  shows "inj_on (getSlotIdentifer c) (set (slots c))"
proof (rule inj_onI)
  fix x y
  assume x: "x \<in> set (slots c)" and y: "y \<in> set (slots c)"
    and e: "getSlotIdentifer c x = getSlotIdentifer c y"
  from x obtain i where i: "i < length (slots c)" "slots c ! i = x"
    by (auto simp: in_set_conv_nth)
  from y obtain j where j: "j < length (slots c)" "slots c ! j = y"
    by (auto simp: in_set_conv_nth)
  from e i j getSlotIdentifer_nth [OF assms i(1)] getSlotIdentifer_nth [OF assms j(1)]
  have "Number_toString (int i + 1) = Number_toString (int j + 1)" by simp
  then have "int i + 1 = int j + 1"
    by (rule Number_toString_inj_nonneg [rotated 2]) simp_all
  with i j show "x = y" by simp
qed

text \<open>
  \<^bold>\<open>C8.\<close> If the slot list of a config holds pairwise distinct slot objects, \<open>getSlotIdentifer\<close>
  maps the slot at zero-based position \<open>i\<close> to \<open>slot\<close> followed by the decimal \<open>i + 1\<close>,
  so the slots of the list get pairwise distinct identifiers; a slot object that is not in
  the list gets \<open>slot0\<close>.
\<close>

theorem getSlotIdentifer_positions:
  assumes "distinct (slots c)"
  shows "(\<forall>i < length (slots c).
            getSlotIdentifer c (slots c ! i) = ''slot'' @ Number_toString (int i + 1))
       \<and> inj_on (getSlotIdentifer c) (set (slots c))
       \<and> (\<forall>s. s \<notin> set (slots c) \<longrightarrow> getSlotIdentifer c s = ''slot0'')"
  using assms getSlotIdentifer_nth getSlotIdentifer_inj getSlotIdentifer_notin by blast

theorem getSlotIdentifer_positions_witness:
  "distinct (slots plain_config)
   \<and> (2::nat) < length (slots plain_config)
   \<and> getSlotIdentifer plain_config (slots plain_config ! 2) = ''slot3''
   \<and> inj_on (getSlotIdentifer plain_config) (set (slots plain_config))
   \<and> 4 \<notin> set (slots plain_config)
   \<and> getSlotIdentifer plain_config 4 = ''slot0''"
proof -
  have d: "distinct (slots plain_config)"
    by (simp add: plain_config_def)
  have l: "(2::nat) < length (slots plain_config)"
    by (simp add: plain_config_def)
  have n: "4 \<notin> set (slots plain_config)"
    by (simp add: plain_config_def)
  note spec = getSlotIdentifer_positions [OF d]
  from spec l have "getSlotIdentifer plain_config (slots plain_config ! 2)
      = ''slot'' @ Number_toString (int 2 + 1)"
    by blast
  then have a: "getSlotIdentifer plain_config (slots plain_config ! 2) = ''slot3''"
    by (simp add: Number_toString_def decimal.simps digit_char_def)
  from spec n have b: "getSlotIdentifer plain_config 4 = ''slot0''"
    by blast
  from spec d l n a b show ?thesis
    by blast
qed


section \<open>Inline slot settings\<close>

lemma forEach_targeting_concat:
  "forEach_targeting san kvs acc =
   acc @ concat (map (\<lambda>kv. ''.'' @ slot_api_setTargeting san kv) kvs)"
  by (induction kvs arbitrary: acc) simp_all

lemma addInlineSlotSettings_text:
  "addInlineSlotSettings san s d =
   d @ concat (map (\<lambda>kv. ''.setTargeting('' @ san (Str (key kv)) @ '', ''
                            @ san (value kv) @ '')'')
                (case targeting s of None \<Rightarrow> [] | Some kvs \<Rightarrow> kvs))
     @ ''.addService(googletag.pubads());''"
  by (simp add: addInlineSlotSettings_def forEach_targeting_concat slot_api_setTargeting_def
      slot_api_addService_def split: option.splits)

text \<open>
  \<^bold>\<open>C6.\<close> \<open>addInlineSlotSettings\<close> returns the definition string, then one chained
  \<open>.setTargeting(key, value)\<close> call per entry of the slot's targeting list in list order
  (key and value as \<open>sanitizeJs\<close> renders them), then \<open>.addService(googletag.pubads());\<close>.
  With no targeting list the result is the definition followed by the \<open>addService\<close> call
  alone.
\<close>

theorem addInlineSlotSettings_chain:
  "addInlineSlotSettings san s d =
     d @ concat (map (\<lambda>kv. ''.setTargeting('' @ san (Str (key kv)) @ '', ''
                              @ san (value kv) @ '')'')
                  (case targeting s of None \<Rightarrow> [] | Some kvs \<Rightarrow> kvs))
       @ ''.addService(googletag.pubads());''
   \<and> (targeting s = None \<longrightarrow>
        addInlineSlotSettings san s d = d @ ''.addService(googletag.pubads());'')"
  by (simp add: addInlineSlotSettings_text)

theorem addInlineSlotSettings_chain_witness:
  "targeting anchor_slot = None
   \<and> addInlineSlotSettings sample_san anchor_slot ''slot3''
       = ''slot3.addService(googletag.pubads());''
   \<and> addInlineSlotSettings sample_san banner_slot ''slot2''
       = ''slot2.setTargeting('color', 'red').setTargeting('interests', null)''
         @ ''.addService(googletag.pubads());''"
proof -
  have a: "targeting anchor_slot = None" by (simp add: sample_defs)
  from a addInlineSlotSettings_chain [of sample_san anchor_slot "''slot3''"]
  have 1: "addInlineSlotSettings sample_san anchor_slot ''slot3''
       = ''slot3.addService(googletag.pubads());''" by simp
  from addInlineSlotSettings_chain [of sample_san banner_slot "''slot2''"]
  have 2: "addInlineSlotSettings sample_san banner_slot ''slot2''
       = ''slot2.setTargeting('color', 'red').setTargeting('interests', null)''
         @ ''.addService(googletag.pubads());''"
    by (simp add: sample_defs sample_san_def)
  from a 1 2 show ?thesis by blast
qed


section \<open>The slotOnload callback\<close>

lemma getSlotOnloadCallback_text:
  \<open>getSlotOnloadCallback names h c r =
     ''\<newline>    if('' @ getSlotIdentifer c r @ '' === event.slot) {\<newline>      ''
     @ ''document.getElementById('' @ [CHR 0x27] @ getSlotIdentifer c r @ [CHR 0x27] @ '')!''
     @ (if format (h r) = Some ''INTERSTITIAL''
        then ''.innerHTML = '' @ [CHR 0x27] @ ''<a href="https://www.example.com">''
             @ template_str (formatName names (format (h r))) @ '' is loaded.'' @ ''</a>''
             @ [CHR 0x27]
        else if format (h r) = Some ''TOP_ANCHOR''
        then ''.innerText = '' @ [CHR 0x27]
             @ template_str (formatName names (format (h r)))
             @ '' is loaded. Scroll page to activate.'' @ [CHR 0x27]
        else ''.innerText = '' @ [CHR 0x27]
             @ template_str (formatName names (format (h r))) @ '' is loaded.'' @ [CHR 0x27])
     @ '';\<newline>    }\<newline>  ''\<close>
  by (simp add: getSlotOnloadCallback_def Let_def status_update_def status_updateHtml_def
      status_container_def outOfPage_loaded_def outOfPage_loadedNeedScroll_def
      outOfPage_loadedUrl_def)

text \<open>
  \<^bold>\<open>C4.\<close> In the callback generated for a slot, the status update is chosen by the slot's
  format: \<open>INTERSTITIAL\<close> assigns \<open>innerHTML\<close> a hyperlink whose text is the format's
  display name followed by \<open>is loaded.\<close>; \<open>TOP_ANCHOR\<close> assigns \<open>innerText\<close> the display
  name followed by \<open>is loaded. Scroll page to activate.\<close>; every other format assigns
  \<open>innerText\<close> the display name followed by \<open>is loaded.\<close>
\<close>

theorem getSlotOnloadCallback_status:
  \<open>getSlotOnloadCallback names h c r =
     ''\<newline>    if('' @ getSlotIdentifer c r @ '' === event.slot) {\<newline>      ''
     @ ''document.getElementById('' @ [CHR 0x27] @ getSlotIdentifer c r @ [CHR 0x27] @ '')!''
     @ (if format (h r) = Some ''INTERSTITIAL''
        then ''.innerHTML = '' @ [CHR 0x27] @ ''<a href="https://www.example.com">''
             @ template_str (formatName names (format (h r))) @ '' is loaded.'' @ ''</a>''
             @ [CHR 0x27]
        else if format (h r) = Some ''TOP_ANCHOR''
        then ''.innerText = '' @ [CHR 0x27]
             @ template_str (formatName names (format (h r)))
             @ '' is loaded. Scroll page to activate.'' @ [CHR 0x27]
        else ''.innerText = '' @ [CHR 0x27]
             @ template_str (formatName names (format (h r))) @ '' is loaded.'' @ [CHR 0x27])
     @ '';\<newline>    }\<newline>  ''\<close>
  by (rule getSlotOnloadCallback_text)

theorem getSlotOnloadCallback_status_witness:
  \<open>getSlotOnloadCallback sample_names sample_store four_slots 7 =
     ''\<newline>    if(slot1 === event.slot) {\<newline>      ''
     @ ''document.getElementById('slot1')!.innerHTML = ''
     @ [CHR 0x27] @ ''<a href="https://www.example.com">Interstitial is loaded.</a>'' @ [CHR 0x27]
     @ '';\<newline>    }\<newline>  ''
   \<and> getSlotOnloadCallback sample_names sample_store four_slots 5 =
     ''\<newline>    if(slot3 === event.slot) {\<newline>      ''
     @ ''document.getElementById('slot3')!.innerText = ''
     @ [CHR 0x27] @ ''Top anchor is loaded. Scroll page to activate.'' @ [CHR 0x27]
     @ '';\<newline>    }\<newline>  ''
   \<and> getSlotOnloadCallback sample_names sample_store four_slots 9 =
     ''\<newline>    if(slot4 === event.slot) {\<newline>      ''
     @ ''document.getElementById('slot4')!.innerText = ''
     @ [CHR 0x27] @ ''Rewarded is loaded.'' @ [CHR 0x27]
     @ '';\<newline>    }\<newline>  ''\<close>
  using getSlotOnloadCallback_status [of sample_names sample_store four_slots 7]
    getSlotOnloadCallback_status [of sample_names sample_store four_slots 5]
    getSlotOnloadCallback_status [of sample_names sample_store four_slots 9]
  by (simp add: sample_names_def formatName_def
      template_str_def ident_defs sample_defs)


section \<open>Defining slots\<close>

lemma trim_padded:
  assumes a: "\<forall>ch \<in> set a. is_ws ch" and z: "\<forall>ch \<in> set z. is_ws ch"
    and b: "b \<noteq> []" and f: "\<not> is_ws (hd b)" and l: "\<not> is_ws (last b)"
  shows "trim (a @ b @ z) = b"
proof -
  from a have 1: "dropWhile is_ws (a @ b @ z) = dropWhile is_ws (b @ z)"
    by (intro dropWhile_append2) simp
  from b f have 2: "dropWhile is_ws (b @ z) = b @ z"
    by (cases b) simp_all
  from z have 3: "dropWhile is_ws (rev z @ rev b) = dropWhile is_ws (rev b)"
    by (intro dropWhile_append2) simp
  from b l have 4: "dropWhile is_ws (rev b) = rev b"
    by (cases b rule: rev_cases) simp_all
  from 1 2 3 4 show ?thesis by (simp add: trim_def)
qed

lemma defineOutOfPageSlot_text:
  "defineOutOfPageSlot san names listen h c r =
     getSlotIdentifer c r @ '' = '' @ api_defineOutOfPageSlot san (h r)
       @ '';\<newline>\<newline>    // '' @ outOfPage_comment (formatName names (format (h r)))
       @ ''\<newline>    if(!'' @ getSlotIdentifer c r @ '') {\<newline>      ''
       @ status_update (getSlotIdentifer c r)
           (outOfPage_notSupported (formatName names (format (h r))))
       @ '';\<newline>    } else {\<newline>      ''
       @ addInlineSlotSettings san (h r) (getSlotIdentifer c r)
       @ '';\<newline>\<newline>      ''
       @ status_update (getSlotIdentifer c r)
           (outOfPage_loading (formatName names (format (h r))))
       @ '';\<newline>\<newline>      ''
       @ listen ''slotOnload'' (getSlotOnloadCallback names h c r)
       @ ''\<newline>    }''"
  (is "_ = ?body")
proof -
  have ws1: "\<forall>ch \<in> set ''\<newline>    ''. is_ws ch" by (simp add: is_ws_def)
  have ws2: "\<forall>ch \<in> set ''\<newline>  ''. is_ws ch" by (simp add: is_ws_def)
  have ne: "?body \<noteq> []" by simp
  have hd: "\<not> is_ws (hd ?body)"
    by (simp add: getSlotIdentifer_def is_ws_def)
  have "last ?body = CHR ''}''"
    by (simp only: append_assoc [symmetric] last_appendR) simp
  then have lst: "\<not> is_ws (last ?body)" by (simp add: is_ws_def)
  have "defineOutOfPageSlot san names listen h c r = trim (''\<newline>    '' @ ?body @ ''\<newline>  '')"
    by (simp add: defineOutOfPageSlot_def Let_def)
  also have "\<dots> = ?body" using ws1 ws2 ne hd lst by (rule trim_padded)
  finally show ?thesis .
qed

lemma defineSlot_text:
  "defineSlot san h c r =
     ''googletag.defineSlot('' @ san (Str (adUnit (h r))) @ '', '' @ san (slot_size (h r))
       @ '', '' @ [CHR 0x27] @ getSlotIdentifer c r @ [CHR 0x27] @ '')!''
       @ concat (map (\<lambda>kv. ''.setTargeting('' @ san (Str (key kv)) @ '', ''
                              @ san (value kv) @ '')'')
                  (case targeting (h r) of None \<Rightarrow> [] | Some kvs \<Rightarrow> kvs))
       @ ''.addService(googletag.pubads());''"
  by (simp add: defineSlot_def Let_def api_defineSlot_def addInlineSlotSettings_text)

lemma setTargeting_calls_cong:
  assumes "map (\<lambda>kv. (san (Str (key kv)), san (value kv))) kvs
         = map (\<lambda>kv. (san (Str (key kv)), san (value kv))) kvs'"
  shows "map (\<lambda>kv. ''.setTargeting('' @ san (Str (key kv)) @ '', ''
                              @ san (value kv) @ '')'') kvs
       = map (\<lambda>kv. ''.setTargeting('' @ san (Str (key kv)) @ '', ''
                              @ san (value kv) @ '')'') kvs'"
proof -
  let ?g = "\<lambda>p. ''.setTargeting('' @ fst p @ '', '' @ snd p @ '')''"
  let ?v = "\<lambda>kv. (san (Str (key kv)), san (value kv))"
  from assms have "map ?g (map ?v kvs) = map ?g (map ?v kvs')" by simp
  then show ?thesis by (simp add: comp_def)
qed

lemma addInlineSlotSettings_cong:
  assumes "map (\<lambda>kv. (san (Str (key kv)), san (value kv)))
             (case targeting s of None \<Rightarrow> [] | Some kvs \<Rightarrow> kvs)
         = map (\<lambda>kv. (san (Str (key kv)), san (value kv)))
             (case targeting s' of None \<Rightarrow> [] | Some kvs \<Rightarrow> kvs)"
  shows "addInlineSlotSettings san s d = addInlineSlotSettings san s' d"
  by (simp only: addInlineSlotSettings_text setTargeting_calls_cong [OF assms])

lemma getSlotOnloadCallback_cong:
  assumes "format (h r) = format (h' r)"
  shows "getSlotOnloadCallback names h c r = getSlotOnloadCallback names h' c r"
  by (simp only: getSlotOnloadCallback_def assms)

lemma defineOutOfPageSlot_full_text:
  "defineOutOfPageSlot san names listen h c r =
     getSlotIdentifer c r @ '' = googletag.defineOutOfPageSlot('' @ san (Str (adUnit (h r)))
       @ '', googletag.enums.OutOfPageFormat.'' @ template_str (format (h r)) @ '')''
       @ '';\<newline>\<newline>    // '' @ outOfPage_comment (formatName names (format (h r)))
       @ ''\<newline>    if(!'' @ getSlotIdentifer c r @ '') {\<newline>      ''
       @ status_update (getSlotIdentifer c r)
           (outOfPage_notSupported (formatName names (format (h r))))
       @ '';\<newline>    } else {\<newline>      ''
       @ getSlotIdentifer c r
       @ concat (map (\<lambda>kv. ''.setTargeting('' @ san (Str (key kv)) @ '', ''
                              @ san (value kv) @ '')'')
                  (case targeting (h r) of None \<Rightarrow> [] | Some kvs \<Rightarrow> kvs))
       @ ''.addService(googletag.pubads());''
       @ '';\<newline>\<newline>      ''
       @ status_update (getSlotIdentifer c r)
           (outOfPage_loading (formatName names (format (h r))))
       @ '';\<newline>\<newline>      ''
       @ listen ''slotOnload'' (getSlotOnloadCallback names h c r)
       @ ''\<newline>    }''"
  by (simp add: defineOutOfPageSlot_text api_defineOutOfPageSlot_def addInlineSlotSettings_text)

text \<open>
  \<^bold>\<open>C5.\<close> As stated the claim fails for the slot's format: \<open>defineOutOfPageSlot\<close> embeds it as
  it is, without \<open>sanitizeJs\<close>. What holds: the ad unit path, the size and every targeting
  key and value reach the generated code through \<open>sanitizeJs\<close> only. Whatever sanitizer is
  plugged in, two slots with the same format whose ad unit, size and targeting entries
  have equal sanitized images give the same \<open>defineSlot\<close>, \<open>defineOutOfPageSlot\<close> and
  \<open>addInlineSlotSettings\<close> code; \<open>defineSlot\<close> and \<open>defineOutOfPageSlot\<close> are the fixed
  template text with those sanitized images, the slot identifier, and (in
  \<open>defineOutOfPageSlot\<close>) the format and its display name spliced in unchanged. Every
  function returns a string on every input: nothing is validated or rejected.
\<close>

theorem sanitizeJs_on_all_but_format:
  assumes au: "san (Str (adUnit (h r))) = san (Str (adUnit (h' r)))"
    and sz: "san (slot_size (h r)) = san (slot_size (h' r))"
    and tg: "map (\<lambda>kv. (san (Str (key kv)), san (value kv)))
               (case targeting (h r) of None \<Rightarrow> [] | Some kvs \<Rightarrow> kvs)
           = map (\<lambda>kv. (san (Str (key kv)), san (value kv)))
               (case targeting (h' r) of None \<Rightarrow> [] | Some kvs \<Rightarrow> kvs)"
    and fm: "format (h r) = format (h' r)"
  shows "defineSlot san h c r = defineSlot san h' c r
       \<and> defineOutOfPageSlot san names listen h c r
           = defineOutOfPageSlot san names listen h' c r
       \<and> addInlineSlotSettings san (h r) d = addInlineSlotSettings san (h' r) d
       \<and> defineSlot san h c r =
           ''googletag.defineSlot('' @ san (Str (adUnit (h r))) @ '', ''
             @ san (slot_size (h r)) @ '', '' @ [CHR 0x27] @ getSlotIdentifer c r @ [CHR 0x27]
             @ '')!''
             @ concat (map (\<lambda>kv. ''.setTargeting('' @ san (Str (key kv)) @ '', ''
                                    @ san (value kv) @ '')'')
                        (case targeting (h r) of None \<Rightarrow> [] | Some kvs \<Rightarrow> kvs))
             @ ''.addService(googletag.pubads());''
       \<and> defineOutOfPageSlot san names listen h c r =
           getSlotIdentifer c r @ '' = googletag.defineOutOfPageSlot(''
             @ san (Str (adUnit (h r)))
             @ '', googletag.enums.OutOfPageFormat.'' @ template_str (format (h r)) @ '')''
             @ '';\<newline>\<newline>    // '' @ outOfPage_comment (formatName names (format (h r)))
             @ ''\<newline>    if(!'' @ getSlotIdentifer c r @ '') {\<newline>      ''
             @ status_update (getSlotIdentifer c r)
                 (outOfPage_notSupported (formatName names (format (h r))))
             @ '';\<newline>    } else {\<newline>      ''
             @ getSlotIdentifer c r
             @ concat (map (\<lambda>kv. ''.setTargeting('' @ san (Str (key kv)) @ '', ''
                                    @ san (value kv) @ '')'')
                        (case targeting (h r) of None \<Rightarrow> [] | Some kvs \<Rightarrow> kvs))
             @ ''.addService(googletag.pubads());''
             @ '';\<newline>\<newline>      ''
             @ status_update (getSlotIdentifer c r)
                 (outOfPage_loading (formatName names (format (h r))))
             @ '';\<newline>\<newline>      ''
             @ listen ''slotOnload'' (getSlotOnloadCallback names h c r)
             @ ''\<newline>    }''"
proof (intro conjI)
  show "defineSlot san h c r = defineSlot san h' c r"
    by (simp only: defineSlot_text au sz setTargeting_calls_cong [OF tg])
  show "defineOutOfPageSlot san names listen h c r
           = defineOutOfPageSlot san names listen h' c r"
    by (simp only: defineOutOfPageSlot_def api_defineOutOfPageSlot_def au fm
        addInlineSlotSettings_cong [OF tg]
        getSlotOnloadCallback_cong [where h = h and h' = h' and r = r, OF fm])
  show "addInlineSlotSettings san (h r) d = addInlineSlotSettings san (h' r) d"
    using tg by (rule addInlineSlotSettings_cong)
  show "defineSlot san h c r =
           ''googletag.defineSlot('' @ san (Str (adUnit (h r))) @ '', ''
             @ san (slot_size (h r)) @ '', '' @ [CHR 0x27] @ getSlotIdentifer c r @ [CHR 0x27]
             @ '')!''
             @ concat (map (\<lambda>kv. ''.setTargeting('' @ san (Str (key kv)) @ '', ''
                                    @ san (value kv) @ '')'')
                        (case targeting (h r) of None \<Rightarrow> [] | Some kvs \<Rightarrow> kvs))
             @ ''.addService(googletag.pubads());''"
    by (rule defineSlot_text)
  show "defineOutOfPageSlot san names listen h c r =
           getSlotIdentifer c r @ '' = googletag.defineOutOfPageSlot(''
             @ san (Str (adUnit (h r)))
             @ '', googletag.enums.OutOfPageFormat.'' @ template_str (format (h r)) @ '')''
             @ '';\<newline>\<newline>    // '' @ outOfPage_comment (formatName names (format (h r)))
             @ ''\<newline>    if(!'' @ getSlotIdentifer c r @ '') {\<newline>      ''
             @ status_update (getSlotIdentifer c r)
                 (outOfPage_notSupported (formatName names (format (h r))))
             @ '';\<newline>    } else {\<newline>      ''
             @ getSlotIdentifer c r
             @ concat (map (\<lambda>kv. ''.setTargeting('' @ san (Str (key kv)) @ '', ''
                                    @ san (value kv) @ '')'')
                        (case targeting (h r) of None \<Rightarrow> [] | Some kvs \<Rightarrow> kvs))
             @ ''.addService(googletag.pubads());''
             @ '';\<newline>\<newline>      ''
             @ status_update (getSlotIdentifer c r)
                 (outOfPage_loading (formatName names (format (h r))))
             @ '';\<newline>\<newline>      ''
             @ listen ''slotOnload'' (getSlotOnloadCallback names h c r)
             @ ''\<newline>    }''"
    by (rule defineOutOfPageSlot_full_text)
qed

theorem sanitizeJs_on_all_but_format_witness:
  "sample_san (Str (adUnit (sample_store 3)))
     = sample_san (Str (adUnit (retargeted_store 3)))
   \<and> adUnit (sample_store 3) \<noteq> adUnit (retargeted_store 3)
   \<and> format (sample_store 3) = format (retargeted_store 3)
   \<and> defineSlot sample_san sample_store sra_config 3
       = defineSlot sample_san retargeted_store sra_config 3
   \<and> defineSlot sample_san sample_store sra_config 3
       = ''googletag.defineSlot('/6355419/Travel/Europe', null, 'slot2')!.setTargeting('color', 'red').setTargeting('interests', null)''
         @ ''.addService(googletag.pubads());''"
proof -
  have au: "sample_san (Str (adUnit (sample_store 3)))
     = sample_san (Str (adUnit (retargeted_store 3)))"
    by (simp add: sample_defs retargeted_store_def sample_san_def)
  have sz: "sample_san (slot_size (sample_store 3))
     = sample_san (slot_size (retargeted_store 3))"
    by (simp add: sample_defs retargeted_store_def sample_san_def)
  have tg: "map (\<lambda>kv. (sample_san (Str (key kv)), sample_san (value kv)))
               (case targeting (sample_store 3) of None \<Rightarrow> [] | Some kvs \<Rightarrow> kvs)
           = map (\<lambda>kv. (sample_san (Str (key kv)), sample_san (value kv)))
               (case targeting (retargeted_store 3) of None \<Rightarrow> [] | Some kvs \<Rightarrow> kvs)"
    by (simp add: sample_defs retargeted_store_def sample_san_def)
  have fm: "format (sample_store 3) = format (retargeted_store 3)"
    by (simp add: sample_defs retargeted_store_def)
  have ne: "adUnit (sample_store 3) \<noteq> adUnit (retargeted_store 3)"
    by (simp add: sample_defs retargeted_store_def)
  note t = sanitizeJs_on_all_but_format [where san = sample_san and h = sample_store
      and h' = retargeted_store and r = 3 and c = sra_config, OF au sz tg fm]
  from t have 1: "defineSlot sample_san sample_store sra_config 3
       = defineSlot sample_san retargeted_store sra_config 3" by blast
  from t have "defineSlot sample_san sample_store sra_config 3 =
           ''googletag.defineSlot('' @ sample_san (Str (adUnit (sample_store 3))) @ '', ''
             @ sample_san (slot_size (sample_store 3)) @ '', '' @ [CHR 0x27]
             @ getSlotIdentifer sra_config 3 @ [CHR 0x27]
             @ '')!''
             @ concat (map (\<lambda>kv. ''.setTargeting('' @ sample_san (Str (key kv)) @ '', ''
                                    @ sample_san (value kv) @ '')'')
                        (case targeting (sample_store 3) of None \<Rightarrow> [] | Some kvs \<Rightarrow> kvs))
             @ ''.addService(googletag.pubads());''" by blast
  then have 2: "defineSlot sample_san sample_store sra_config 3
       = ''googletag.defineSlot('/6355419/Travel/Europe', null, 'slot2')!.setTargeting('color', 'red').setTargeting('interests', null)''
         @ ''.addService(googletag.pubads());''"
    by (simp add: sample_defs ident_defs sample_san_def)
  from au fm ne 1 2 show ?thesis by blast
qed

theorem format_not_sanitized_counterexample:
  "format (injected_store 0) = Some ''TOP_ANCHOR); alert(1); (0''
   \<and> api_defineOutOfPageSlot mask_san (injected_store 0)
       = ''googletag.defineOutOfPageSlot(?, googletag.enums.OutOfPageFormat.''
         @ ''TOP_ANCHOR); alert(1); (0'' @ '')''
   \<and> take 100 (defineOutOfPageSlot mask_san sample_names sample_listen injected_store one_slot 0)
       = ''slot1 = googletag.defineOutOfPageSlot(?, googletag.enums.OutOfPageFormat.''
         @ ''TOP_ANCHOR); alert(1); (0'' @ '');''"
  by (simp add: defineOutOfPageSlot_full_text injected_store_def injected_slot_def one_slot_def
      mask_san_def api_defineOutOfPageSlot_def template_str_def ident_defs)


section \<open>Displaying slots\<close>

lemma sra_enabled_iff: "sra_enabled c \<longleftrightarrow> (\<exists>p. page c = Some p \<and> sra p = Some True)"
  by (auto simp: sra_enabled_def split: option.splits)

lemma findIndex_from_none: "find P xs = None \<Longrightarrow> findIndex_from k P xs = - 1"
  by (induction xs arbitrary: k) (auto split: if_splits)

lemma findIndex_from_some:
  "find P xs = Some x \<Longrightarrow>
   \<exists>i < length xs. findIndex_from k P xs = int (k + i) \<and> xs ! i = x"
proof (induction xs arbitrary: k)
  case Nil
  then show ?case by simp
next
  case (Cons y ys)
  show ?case
  proof (cases "P y")
    case True
    with Cons.prems show ?thesis by auto
  next
    case False
    with Cons.prems have "find P ys = Some x" by simp
    from Cons.IH [OF this, of "Suc k"] obtain i where
      "i < length ys" "findIndex_from (Suc k) P ys = int (Suc k + i)" "ys ! i = x"
      by blast
    with False have "Suc i < length (y # ys) \<and>
        findIndex_from k P (y # ys) = int (k + Suc i) \<and> (y # ys) ! Suc i = x"
      by simp
    then show ?thesis by blast
  qed
qed

lemma sra_index_find_some:
  assumes "find (\<lambda>s. \<not> truthy (format (h s))) (slots c) = Some x"
  shows "array_get (slots c) (sra_index h c) = Some x"
proof -
  from findIndex_from_some [OF assms, of 0] obtain i where
    i: "i < length (slots c)"
      "findIndex_from 0 (\<lambda>s. \<not> truthy (format (h s))) (slots c) = int i"
      "slots c ! i = x"
    by auto
  then show ?thesis
    by (simp add: sra_index_def findIndex_def array_get_def)
qed

lemma sra_index_find_none:
  assumes "find (\<lambda>s. \<not> truthy (format (h s))) (slots c) = None"
  shows "sra_index h c = int (length (slots c)) - 1"
  using findIndex_from_none [OF assms, of 0]
  by (simp add: sra_index_def findIndex_def)

lemma array_get_last: "xs \<noteq> [] \<Longrightarrow> array_get xs (int (length xs) - 1) = Some (last xs)"
proof -
  assume ne: "xs \<noteq> []"
  then have "nat (int (length xs) - 1) = length xs - 1" by simp
  with ne show ?thesis
    by (simp add: array_get_def last_conv_nth)
qed

lemma sra_index_range:
  assumes "slots c \<noteq> []"
  shows "0 \<le> sra_index h c \<and> sra_index h c < int (length (slots c))"
proof (cases "find (\<lambda>s. \<not> truthy (format (h s))) (slots c)")
  case None
  with assms sra_index_find_none [OF None] show ?thesis
    by (cases "slots c") simp_all
next
  case (Some x)
  from sra_index_find_some [OF Some] show ?thesis
    by (simp add: array_get_def split: if_splits)
qed

lemma sra_index_empty: "slots c = [] \<Longrightarrow> sra_index h c = - 1"
  by (simp add: sra_index_def findIndex_def)

lemma display_defined: "\<exists>code. display h c (Some s) = Inr code"
  by (simp add: display_def Let_def)

lemma display_undefined: "display h c None = Inl TypeError"
  by (simp add: display_def)

lemma forEach_display_concat:
  "list_all2 (\<lambda>s f. display h c (Some s) = Inr f) ss frags \<Longrightarrow>
   forEach_display h c ss acc = Inr (acc @ concat frags)"
proof (induction ss arbitrary: acc frags)
  case Nil
  then show ?case by simp
next
  case (Cons s ss)
  from Cons.prems obtain f fs where
    fr: "frags = f # fs" and f: "display h c (Some s) = Inr f"
    and fs: "list_all2 (\<lambda>s f. display h c (Some s) = Inr f) ss fs"
    by (auto simp: list_all2_Cons1)
  from Cons.IH [OF fs, of "acc @ f"] f fr show ?case by simp
qed

lemma display_fragments: "\<exists>frags. list_all2 (\<lambda>s f. display h c (Some s) = Inr f) ss frags"
proof (induction ss)
  case Nil
  show ?case by simp
next
  case (Cons s ss)
  then obtain fs where fs: "list_all2 (\<lambda>s f. display h c (Some s) = Inr f) ss fs" by blast
  from display_defined [of h c s] obtain f where "display h c (Some s) = Inr f" by blast
  with fs have "list_all2 (\<lambda>s f. display h c (Some s) = Inr f) (s # ss) (f # fs)" by simp
  then show ?case by blast
qed

lemma displayAll_sra_slot:
  assumes "sra_enabled c" and "slots c \<noteq> []"
  shows "displayAll h c =
         display h c (Some (case find (\<lambda>s. \<not> truthy (format (h s))) (slots c) of
                              Some s \<Rightarrow> s | None \<Rightarrow> last (slots c)))"
proof (cases "find (\<lambda>s. \<not> truthy (format (h s))) (slots c)")
  case None
  with assms sra_index_find_none [OF None] array_get_last [OF assms(2)] show ?thesis
    by (simp add: displayAll_def)
next
  case (Some x)
  with assms sra_index_find_some [OF Some] show ?thesis
    by (simp add: displayAll_def)
qed

lemma find_in_set: "find P xs = Some x \<Longrightarrow> x \<in> set xs"
  by (induction xs) (auto split: if_splits)

lemma sra_slot_in_list:
  assumes "slots c \<noteq> []"
  shows "(case find P (slots c) of Some s \<Rightarrow> s | None \<Rightarrow> last (slots c)) \<in> set (slots c)"
  using assms by (auto split: option.splits dest: find_in_set)

text \<open>
  \<^bold>\<open>C1.\<close> As stated the claim fails on a config with the single-request flag set and no
  slots, where \<open>displayAll\<close> ends in a \<open>TypeError\<close>. What holds: when the flag is true and
  the slot list is not empty, \<open>displayAll\<close> is the display code of exactly one slot of the
  list; when the flag is absent or false, it is the display fragments of all slots of
  the list, concatenated in list order.
\<close>

theorem displayAll_one_or_all:
  "(sra_enabled c \<and> slots c \<noteq> [] \<longrightarrow>
      (\<exists>s \<in> set (slots c). \<exists>code. display h c (Some s) = Inr code \<and> displayAll h c = Inr code))
   \<and> (\<not> sra_enabled c \<longrightarrow>
      (\<exists>frags. list_all2 (\<lambda>s f. display h c (Some s) = Inr f) (slots c) frags
               \<and> displayAll h c = Inr (concat frags)))"
proof (intro conjI impI)
  assume a: "sra_enabled c \<and> slots c \<noteq> []"
  let ?s = "case find (\<lambda>s. \<not> truthy (format (h s))) (slots c) of
              Some s \<Rightarrow> s | None \<Rightarrow> last (slots c)"
  from a have e: "displayAll h c = display h c (Some ?s)" by (simp add: displayAll_sra_slot)
  from a have m: "?s \<in> set (slots c)" by (simp add: sra_slot_in_list)
  from display_defined [of h c ?s] obtain code where "display h c (Some ?s) = Inr code" by blast
  with e m show "\<exists>s \<in> set (slots c). \<exists>code. display h c (Some s) = Inr code \<and> displayAll h c = Inr code"
    by metis
next
  assume n: "\<not> sra_enabled c"
  from display_fragments [of h c "slots c"] obtain frags where
    f: "list_all2 (\<lambda>s f. display h c (Some s) = Inr f) (slots c) frags" by blast
  from forEach_display_concat [OF f, of "[]"] n have "displayAll h c = Inr (concat frags)"
    by (simp add: displayAll_def)
  with f show "\<exists>frags. list_all2 (\<lambda>s f. display h c (Some s) = Inr f) (slots c) frags
               \<and> displayAll h c = Inr (concat frags)" by blast
qed

theorem displayAll_one_or_all_witness:
  "sra_enabled sra_config \<and> slots sra_config \<noteq> []
   \<and> (\<exists>s \<in> set (slots sra_config). \<exists>code.
         display sample_store sra_config (Some s) = Inr code
         \<and> displayAll sample_store sra_config = Inr code)
   \<and> displayAll sample_store sra_config = Inr ''googletag.display('slot2');''
   \<and> \<not> sra_enabled plain_config
   \<and> (\<exists>frags. list_all2 (\<lambda>s f. display sample_store plain_config (Some s) = Inr f)
                 (slots plain_config) frags
               \<and> displayAll sample_store plain_config = Inr (concat frags))
   \<and> displayAll sample_store plain_config =
       Inr (''if (slot1) { googletag.display(slot1); }'' @ ''googletag.display('slot2');''
            @ ''if (slot3) { googletag.display(slot3); }'')"
proof -
  have h1: "sra_enabled sra_config \<and> slots sra_config \<noteq> []"
    by (simp add: sample_defs sra_enabled_def)
  have h2: "\<not> sra_enabled plain_config"
    by (simp add: sample_defs sra_enabled_def)
  note t1 = displayAll_one_or_all [of sra_config sample_store]
  note t2 = displayAll_one_or_all [of plain_config sample_store]
  have v1: "displayAll sample_store sra_config = Inr ''googletag.display('slot2');''"
    by (simp add: sample_defs sra_enabled_def displayAll_def sra_index_def findIndex_def
        array_get_def display_def truthy_def api_display_def ident_defs)
  have v2: "displayAll sample_store plain_config =
       Inr (''if (slot1) { googletag.display(slot1); }'' @ ''googletag.display('slot2');''
            @ ''if (slot3) { googletag.display(slot3); }'')"
    by (simp add: sample_defs sra_enabled_def displayAll_def
        display_def truthy_def api_display_def ident_defs)
  from h1 h2 t1 t2 v1 v2 show ?thesis by blast
qed

theorem displayAll_sra_empty_counterexample:
  "sra_enabled sra_empty_config \<and> displayAll sample_store sra_empty_config = Inl TypeError"
  by (simp add: sample_defs sra_enabled_def displayAll_def sra_index_def findIndex_def
      array_get_def display_def)

text \<open>
  \<^bold>\<open>C9.\<close> With the single-request flag true and a non-empty slot list, \<open>displayAll\<close> is the
  display code of the first slot of the list that has no out-of-page format, and of the
  last slot of the list when every slot has one.
\<close>

theorem displayAll_sra_first_static_else_last:
  assumes "sra_enabled c" and "slots c \<noteq> []"
  shows "displayAll h c =
         display h c (Some (case find (\<lambda>s. \<not> truthy (format (h s))) (slots c) of
                              Some s \<Rightarrow> s | None \<Rightarrow> last (slots c)))"
  using assms by (rule displayAll_sra_slot)

theorem displayAll_sra_first_static_else_last_witness:
  "sra_enabled sra_config \<and> slots sra_config \<noteq> []
   \<and> displayAll sample_store sra_config = display sample_store sra_config (Some 3)
   \<and> sra_enabled sra_oop_config \<and> slots sra_oop_config \<noteq> []
   \<and> displayAll sample_store sra_oop_config = display sample_store sra_oop_config (Some 5)"
proof -
  have a: "sra_enabled sra_config" and b: "slots sra_config \<noteq> []"
    and c: "sra_enabled sra_oop_config" and d: "slots sra_oop_config \<noteq> []"
    by (simp_all add: sample_defs sra_enabled_def)
  from displayAll_sra_first_static_else_last [OF a b, of sample_store]
  have 1: "displayAll sample_store sra_config = display sample_store sra_config (Some 3)"
    by (simp add: sample_defs truthy_def)
  from displayAll_sra_first_static_else_last [OF c d, of sample_store]
  have 2: "displayAll sample_store sra_oop_config = display sample_store sra_oop_config (Some 5)"
    by (simp add: sample_defs truthy_def)
  from a b c d 1 2 show ?thesis by blast
qed

text \<open>
  \<^bold>\<open>C10.\<close> On a non-empty slot list the index computed in the single-request branch lies
  within the list; on the empty list it is \<open>-1\<close>. \<open>displayAll\<close> ends in an error exactly when
  the flag is true and the list is empty.
\<close>

theorem displayAll_index_bounds:
  "(slots c \<noteq> [] \<longrightarrow> 0 \<le> sra_index h c \<and> sra_index h c < int (length (slots c)))
   \<and> (slots c = [] \<longrightarrow> sra_index h c = - 1)
   \<and> ((\<exists>e. displayAll h c = Inl e) \<longleftrightarrow> sra_enabled c \<and> slots c = [])"
proof (intro conjI impI)
  assume "slots c \<noteq> []"
  then show "0 \<le> sra_index h c" "sra_index h c < int (length (slots c))"
    using sra_index_range by blast+
next
  assume "slots c = []"
  then show "sra_index h c = - 1" by (rule sra_index_empty)
next
  show "(\<exists>e. displayAll h c = Inl e) \<longleftrightarrow> sra_enabled c \<and> slots c = []"
  proof (cases "sra_enabled c")
    case False
    from display_fragments [of h c "slots c"] obtain frags where
      "list_all2 (\<lambda>s f. display h c (Some s) = Inr f) (slots c) frags" by blast
    from forEach_display_concat [OF this, of "[]"] False show ?thesis
      by (simp add: displayAll_def)
  next
    case True
    show ?thesis
    proof (cases "slots c = []")
      case True
      with \<open>sra_enabled c\<close> show ?thesis
        by (simp add: displayAll_def sra_index_empty array_get_def display_undefined)
    next
      case False
      from displayAll_sra_slot [OF \<open>sra_enabled c\<close> False, of h] display_defined [of h c]
      obtain code where "displayAll h c = Inr code" by metis
      with False show ?thesis by simp
    qed
  qed
qed

theorem displayAll_index_bounds_witness:
  "slots sra_oop_config \<noteq> []
   \<and> 0 \<le> sra_index sample_store sra_oop_config
   \<and> sra_index sample_store sra_oop_config < int (length (slots sra_oop_config))
   \<and> sra_index sample_store sra_oop_config = 1
   \<and> slots sra_empty_config = []
   \<and> sra_index sample_store sra_empty_config = - 1
   \<and> sra_enabled sra_empty_config
   \<and> (\<exists>e. displayAll sample_store sra_empty_config = Inl e)"
proof -
  have a: "slots sra_oop_config \<noteq> []" and b: "slots sra_empty_config = []"
    and c: "sra_enabled sra_empty_config"
    by (simp_all add: sample_defs sra_enabled_def)
  have v: "sra_index sample_store sra_oop_config = 1"
    by (simp add: sample_defs sra_index_def findIndex_def truthy_def)
  note t1 = displayAll_index_bounds [of sra_oop_config sample_store]
  note t2 = displayAll_index_bounds [of sra_empty_config sample_store]
  from a b c v t1 t2 show ?thesis by blast
qed


section \<open>Determinism\<close>

lemma indexOf_from_map:
  "inj_on f (insert x (set xs)) \<Longrightarrow> indexOf_from k (map f xs) (f x) = indexOf_from k xs x"
proof (induction xs arbitrary: k)
  case Nil
  show ?case by simp
next
  case (Cons y ys)
  from Cons.prems have i: "inj_on f (insert x (set ys))"
    by (rule inj_on_subset) auto
  from Cons.prems have "f y = f x \<longleftrightarrow> y = x"
    by (auto simp: inj_on_def)
  with Cons.IH [OF i] show ?case by simp
qed

lemma getSlotIdentifer_map:
  assumes "inj_on f (insert s (set (slots c)))"
  shows "getSlotIdentifer (c\<lparr>slots := map f (slots c)\<rparr>) (f s) = getSlotIdentifer c s"
  using indexOf_from_map [OF assms, of 0]
  by (simp add: getSlotIdentifer_def indexOf_def)

lemma findIndex_from_map:
  "(\<And>x. x \<in> set xs \<Longrightarrow> Q (f x) = P x) \<Longrightarrow>
   findIndex_from k Q (map f xs) = findIndex_from k P xs"
  by (induction xs arbitrary: k) simp_all

lemma array_get_map: "array_get (map f xs) i = map_option f (array_get xs i)"
  by (simp add: array_get_def nat_less_iff)

lemma display_map:
  assumes "inj_on f (insert s (set (slots c)))" and "h' (f s) = h s"
  shows "display h' (c\<lparr>slots := map f (slots c)\<rparr>) (Some (f s)) = display h c (Some s)"
  using getSlotIdentifer_map [OF assms(1)] assms(2)
  by (simp add: display_def)

lemma forEach_display_map:
  assumes "inj_on f (set (slots c))" and "\<forall>s \<in> set (slots c). h' (f s) = h s"
  shows "set ss \<subseteq> set (slots c) \<Longrightarrow>
         forEach_display h' (c\<lparr>slots := map f (slots c)\<rparr>) (map f ss) acc
       = forEach_display h c ss acc"
proof (induction ss arbitrary: acc)
  case Nil
  show ?case by simp
next
  case (Cons s ss)
  then have m: "s \<in> set (slots c)" by simp
  then have "insert s (set (slots c)) = set (slots c)" by auto
  with assms(1) have "inj_on f (insert s (set (slots c)))" by simp
  from display_map [OF this] assms(2) m
  have "display h' (c\<lparr>slots := map f (slots c)\<rparr>) (Some (f s)) = display h c (Some s)"
    by simp
  with Cons show ?case by (simp split: sum.splits)
qed

lemma displayAll_map:
  assumes i: "inj_on f (set (slots c))" and a: "\<forall>s \<in> set (slots c). h' (f s) = h s"
  shows "displayAll h' (c\<lparr>slots := map f (slots c)\<rparr>) = displayAll h c"
proof (cases "sra_enabled c")
  case False
  with forEach_display_map [OF i a, of "slots c" "[]"] show ?thesis
    by (simp add: displayAll_def sra_enabled_def)
next
  case True
  from a have "findIndex_from 0 (\<lambda>s. \<not> truthy (format (h' s))) (map f (slots c))
             = findIndex_from 0 (\<lambda>s. \<not> truthy (format (h s))) (slots c)"
    by (intro findIndex_from_map) simp
  then have x: "sra_index h' (c\<lparr>slots := map f (slots c)\<rparr>) = sra_index h c"
    by (simp add: sra_index_def findIndex_def Let_def)
  have "display h' (c\<lparr>slots := map f (slots c)\<rparr>) (map_option f (array_get (slots c) (sra_index h c)))
      = display h c (array_get (slots c) (sra_index h c))"
  proof (cases "array_get (slots c) (sra_index h c)")
    case None
    then show ?thesis by (simp add: display_def)
  next
    case (Some s)
    then have m: "s \<in> set (slots c)"
      by (auto simp: array_get_def split: if_splits)
    then have "insert s (set (slots c)) = set (slots c)" by auto
    with i have "inj_on f (insert s (set (slots c)))" by simp
    from display_map [OF this] a m Some show ?thesis by simp
  qed
  with True x show ?thesis
    by (simp add: displayAll_def sra_enabled_def array_get_map)
qed

text \<open>
  \<^bold>\<open>C3.\<close> The generated code is a function of the config and the slot alone. Two runs whose
  inputs are equal up to the identity of the slot objects (the second config is the first
  with its slot references renamed one-to-one, and renamed references hold equal slot
  objects) give equal output for \<open>declareSlot\<close>, \<open>defineSlot\<close>, \<open>defineOutOfPageSlot\<close>,
  \<open>display\<close>, \<open>displayAll\<close> and \<open>addInlineSlotSettings\<close>, whatever the rest of the store
  holds; \<open>enableServices\<close> is a constant.
\<close>

theorem codegen_deterministic:
  assumes i: "inj_on f (insert r (set (slots c)))"
    and a: "\<forall>s \<in> insert r (set (slots c)). h' (f s) = h s"
    and c': "c' = c\<lparr>slots := map f (slots c)\<rparr>"
  shows "declareSlot c' (f r) = declareSlot c r
       \<and> defineSlot san h' c' (f r) = defineSlot san h c r
       \<and> defineOutOfPageSlot san names listen h' c' (f r)
           = defineOutOfPageSlot san names listen h c r
       \<and> display h' c' (Some (f r)) = display h c (Some r)
       \<and> displayAll h' c' = displayAll h c
       \<and> addInlineSlotSettings san (h' (f r)) d = addInlineSlotSettings san (h r) d
       \<and> enableServices = ''googletag.enableServices();''"
proof -
  from a have hr: "h' (f r) = h r" by simp
  from getSlotIdentifer_map [OF i] c' have g: "getSlotIdentifer c' (f r) = getSlotIdentifer c r"
    by simp
  from i have i': "inj_on f (set (slots c))" by (rule inj_on_subset) auto
  from a have a': "\<forall>s \<in> set (slots c). h' (f s) = h s" by simp
  have 1: "declareSlot c' (f r) = declareSlot c r"
    by (simp add: declareSlot_def g)
  have 2: "defineSlot san h' c' (f r) = defineSlot san h c r"
    by (simp add: defineSlot_def g hr)
  have cb: "getSlotOnloadCallback names h' c' (f r) = getSlotOnloadCallback names h c r"
    by (simp only: getSlotOnloadCallback_def g hr)
  have 3: "defineOutOfPageSlot san names listen h' c' (f r)
           = defineOutOfPageSlot san names listen h c r"
    by (simp only: defineOutOfPageSlot_def g hr cb)
  have 4: "display h' c' (Some (f r)) = display h c (Some r)"
    using display_map [where h = h and h' = h', OF i hr] c' by simp
  have 5: "displayAll h' c' = displayAll h c"
    using displayAll_map [OF i' a'] c' by simp
  have 6: "addInlineSlotSettings san (h' (f r)) d = addInlineSlotSettings san (h r) d"
    by (simp add: hr)
  have 7: "enableServices = ''googletag.enableServices();''"
    by (simp add: enableServices_def api_enableServices_def)
  from 1 2 3 4 5 6 7 show ?thesis by blast
qed

theorem codegen_deterministic_witness:
  "inj_on (\<lambda>s. s + 10) (insert 3 (set (slots sra_config)))
   \<and> renamed_store 13 = sample_store 3 \<and> renamed_store 15 = sample_store 5
   \<and> renamed_store 17 = sample_store 7
   \<and> renamed_config = sra_config\<lparr>slots := map (\<lambda>s. s + 10) (slots sra_config)\<rparr>
   \<and> declareSlot renamed_config 13 = declareSlot sra_config 3
   \<and> defineSlot sample_san renamed_store renamed_config 13
       = defineSlot sample_san sample_store sra_config 3
   \<and> defineOutOfPageSlot sample_san sample_names sample_listen renamed_store renamed_config 15
       = defineOutOfPageSlot sample_san sample_names sample_listen sample_store sra_config 5
   \<and> display renamed_store renamed_config (Some 13) = display sample_store sra_config (Some 3)
   \<and> displayAll renamed_store renamed_config = displayAll sample_store sra_config
   \<and> declareSlot sra_config 3 = ''let slot2: googletag.Slot|null;''"
proof -
  have i: "inj_on (\<lambda>s. s + 10) (insert 3 (set (slots sra_config)))"
    and i': "inj_on (\<lambda>s. s + 10) (insert 5 (set (slots sra_config)))"
    by simp_all
  have a: "\<forall>s \<in> insert 3 (set (slots sra_config)). renamed_store (s + 10) = sample_store s"
    and a': "\<forall>s \<in> insert 5 (set (slots sra_config)). renamed_store (s + 10) = sample_store s"
    by (simp_all add: renamed_store_def)
  have c: "renamed_config = sra_config\<lparr>slots := map (\<lambda>s. s + 10) (slots sra_config)\<rparr>"
    by (simp add: renamed_config_def sra_config_def)
  note t = codegen_deterministic [where f = "\<lambda>s. s + 10" and h = sample_store
      and h' = renamed_store and san = sample_san and names = sample_names
      and listen = sample_listen, OF i a c]
  note t' = codegen_deterministic [where f = "\<lambda>s. s + 10" and h = sample_store
      and h' = renamed_store and san = sample_san and names = sample_names
      and listen = sample_listen, OF i' a' c]
  have v: "declareSlot sra_config 3 = ''let slot2: googletag.Slot|null;''"
    by (simp add: declareSlot_def api_declareSlot_def sample_defs ident_defs)
  from t have t1: "declareSlot renamed_config 13 = declareSlot sra_config 3"
    and t2: "defineSlot sample_san renamed_store renamed_config 13
       = defineSlot sample_san sample_store sra_config 3"
    and t4: "display renamed_store renamed_config (Some 13) = display sample_store sra_config (Some 3)"
    and t5: "displayAll renamed_store renamed_config = displayAll sample_store sra_config"
    by simp_all
  from t' have t3: "defineOutOfPageSlot sample_san sample_names sample_listen renamed_store renamed_config 15
       = defineOutOfPageSlot sample_san sample_names sample_listen sample_store sra_config 5"
    by simp
  from a have e: "renamed_store 13 = sample_store 3" "renamed_store 15 = sample_store 5"
    "renamed_store 17 = sample_store 7"
    by (simp_all add: sra_config_def)
  from i e c v t1 t2 t3 t4 t5 show ?thesis by blast
qed


section \<open>base64url round trip\<close>

lemma div_pack: "x < m \<Longrightarrow> (q * m + x) div m = (q :: nat)"
  by simp

lemma mod_pack: "x < m \<Longrightarrow> (q * m + x) mod m = (x :: nat)"
  by simp

lemma byte_parts:
  fixes b :: nat
  assumes "b < 256"
  shows "b div 4 < 64" and "b div 16 < 16" and "b div 64 < 4"
  using assms by (simp_all add: less_mult_imp_div_less)

lemma b64_group:
  fixes a b c :: nat
  assumes "a < 256" "b < 256" "c < 256"
  shows "(a div 4) * 4 + ((a mod 4) * 16 + b div 16) div 16 = a"
    and "(((a mod 4) * 16 + b div 16) mod 16) * 16 + ((b mod 16) * 4 + c div 64) div 4 = b"
    and "(((b mod 16) * 4 + c div 64) mod 4) * 64 + c mod 64 = c"
    and "(((a mod 4) * 16 + b div 16) mod 16) * 16 + ((b mod 16) * 4) div 4 = b"
    and "(a div 4) * 4 + ((a mod 4) * 16) div 16 = a"
proof -
  note b16 = byte_parts(2) [OF assms(2)] and c64 = byte_parts(3) [OF assms(3)]
  show "(a div 4) * 4 + ((a mod 4) * 16 + b div 16) div 16 = a"
    by (simp only: div_pack [OF b16] div_mult_mod_eq)
  show "(((a mod 4) * 16 + b div 16) mod 16) * 16 + ((b mod 16) * 4 + c div 64) div 4 = b"
    by (simp only: mod_pack [OF b16] div_pack [OF c64] div_mult_mod_eq)
  show "(((b mod 16) * 4 + c div 64) mod 4) * 64 + c mod 64 = c"
    by (simp only: mod_pack [OF c64] div_mult_mod_eq)
  show "(((a mod 4) * 16 + b div 16) mod 16) * 16 + ((b mod 16) * 4) div 4 = b"
    by (simp only: mod_pack [OF b16] nonzero_mult_div_cancel_right div_mult_mod_eq)
  show "(a div 4) * 4 + ((a mod 4) * 16) div 16 = a"
    by simp
qed

lemma b64_group_range:
  fixes a b c :: nat
  assumes "a < 256" "b < 256" "c < 256"
  shows "a div 4 < 64" and "(a mod 4) * 16 + b div 16 < 64" and "(b mod 16) * 4 + c div 64 < 64"
    and "c mod 64 < 64" and "(b mod 16) * 4 < 64" and "(a mod 4) * 16 < 64"
proof -
  have a4: "a mod 4 < 4" and b16: "b mod 16 < 16" by simp_all
  note d = byte_parts [OF assms(1)] byte_parts [OF assms(2)] byte_parts [OF assms(3)]
  show "a div 4 < 64" by (rule d)
  from a4 d show "(a mod 4) * 16 + b div 16 < 64" by linarith
  from b16 d show "(b mod 16) * 4 + c div 64 < 64" by linarith
  show "c mod 64 < 64" by simp
  from b16 show "(b mod 16) * 4 < 64" by linarith
  from a4 show "(a mod 4) * 16 < 64" by linarith
qed

lemma b64url_alphabet_length: "length b64url_alphabet = 64"
  by (simp add: b64url_alphabet_def)

lemma b64url_alphabet_distinct: "distinct b64url_alphabet"
  by (simp add: b64url_alphabet_def)

lemma b64_index_char: "n < 64 \<Longrightarrow> b64_index (b64_char n) = Some n"
proof -
  assume n: "n < 64"
  have "map_of (zip b64url_alphabet [0 ..< length b64url_alphabet]) (b64url_alphabet ! n)
        = Some ([0 ..< length b64url_alphabet] ! n)"
    using n by (intro map_of_zip_nth) (simp_all add: b64url_alphabet_distinct b64url_alphabet_length)
  with n show ?thesis
    by (simp add: b64_index_def b64_char_def b64url_alphabet_length)
qed

lemma those_b64_index:
  "\<forall>x \<in> set xs. x < 64 \<Longrightarrow> those (map b64_index (map b64_char xs)) = Some xs"
  by (induction xs) (simp_all add: b64_index_char)

lemma b64_sextets_range:
  "\<forall>b \<in> set bytes. b < 256 \<Longrightarrow> \<forall>x \<in> set (b64_sextets bytes). x < 64"
proof (induction bytes rule: b64_sextets.induct)
  case (1 a b c bytes)
  then have r: "a < 256" "b < 256" "c < 256" by simp_all
  from 1 b64_group_range(1-4) [OF r] show ?case by simp
next
  case (2 a b)
  then have r: "a < 256" "b < 256" by simp_all
  from b64_group_range(1,2,5) [OF r r(1)] show ?case by simp
next
  case (3 a)
  then have r: "a < 256" by simp
  from b64_group_range(1,6) [OF r r r] show ?case by simp
next
  case 4
  show ?case by simp
qed

lemma b64_bytes_sextets:
  "\<forall>b \<in> set bytes. b < 256 \<Longrightarrow> b64_bytes (b64_sextets bytes) = Some bytes"
proof (induction bytes rule: b64_sextets.induct)
  case (1 a b c bytes)
  then have r: "a < 256" "b < 256" "c < 256" by simp_all
  from 1 have "b64_bytes (b64_sextets bytes) = Some bytes" by simp
  with b64_group(1-3) [OF r] show ?case by simp
next
  case (2 a b)
  then have r: "a < 256" "b < 256" by simp_all
  from b64_group(1,4) [OF r r(1)] show ?case by simp
next
  case (3 a)
  then have r: "a < 256" by simp
  from b64_group(5) [OF r r r] show ?case by simp
next
  case 4
  show ?case by simp
qed

lemma base64url_roundtrip: "base64url_decode (base64url_encode s) = Inr s"
proof -
  have r: "\<forall>b \<in> set (map of_char s :: nat list). b < 256" by simp
  from those_b64_index [OF b64_sextets_range [OF r]] b64_bytes_sextets [OF r]
  show ?thesis
    by (simp add: base64url_decode_def base64url_encode_def comp_def)
qed

lemma b64_sextets_nonempty: "bytes \<noteq> [] \<Longrightarrow> b64_sextets bytes \<noteq> []"
  by (cases bytes rule: b64_sextets.cases) simp_all

lemma base64url_encode_nonempty: "s \<noteq> [] \<Longrightarrow> base64url_encode s \<noteq> []"
  by (simp add: base64url_encode_def b64_sextets_nonempty)


section \<open>JSON strings\<close>

lemma hex_val_hex_char_all: "list_all (\<lambda>d. hex_val (hex_char d) = Some d) [0 ..< 16]"
  by code_simp

lemma hex_val_hex_char: "d < 16 \<Longrightarrow> hex_val (hex_char d) = Some d"
  using hex_val_hex_char_all by (simp add: list_all_iff)

lemma hex4_control:
  assumes "n < 32"
  shows "hex4 (CHR ''0'') (CHR ''0'') (hex_char (n div 16)) (hex_char (n mod 16)) = Some n"
proof -
  from assms have "n div 16 < 16" by (simp add: less_mult_imp_div_less)
  then have a: "hex_val (hex_char (n div 16)) = Some (n div 16)" by (rule hex_val_hex_char)
  have b: "hex_val (hex_char (n mod 16)) = Some (n mod 16)" by (rule hex_val_hex_char) simp
  have z: "hex_val (CHR ''0'') = Some 0" by (simp add: hex_val_def)
  show ?thesis by (simp add: hex4_def a b z)
qed

lemma parse_chars_plain:
  "ch \<noteq> CHR 0x22 \<Longrightarrow> ch \<noteq> CHR 0x5C \<Longrightarrow> \<not> of_char ch < (32 :: nat) \<Longrightarrow>
   parse_chars (ch # tail) = cons_char ch (parse_chars tail)"
  by simp

lemma parse_chars_short:
  "unescape e = Some ch \<Longrightarrow> e \<noteq> CHR ''u'' \<Longrightarrow>
   parse_chars (CHR 0x5C # e # tail) = cons_char ch (parse_chars tail)"
  by simp

lemma parse_chars_hex:
  "hex4 h1 h2 h3 h4 = Some n \<Longrightarrow> n < 256 \<Longrightarrow>
   parse_chars (CHR 0x5C # CHR ''u'' # h1 # h2 # h3 # h4 # tail)
     = cons_char (char_of n) (parse_chars tail)"
  by simp

lemma parse_chars_quote: "parse_chars (CHR 0x22 # rest) = Inr ([], rest)"
  by simp

declare parse_chars.simps [simp del]

lemma parse_chars_escape:
  "parse_chars (json_escape ch @ tail) = cons_char ch (parse_chars tail)"
proof -
  consider (dq) "ch = CHR 0x22" | (bs) "ch = CHR 0x5C" | (b) "ch = CHR 0x08"
    | (f) "ch = CHR 0x0C" | (n) "ch = CHR 0x0A" | (r) "ch = CHR 0x0D" | (t) "ch = CHR 0x09"
    | (ctl) "ch \<notin> {CHR 0x22, CHR 0x5C, CHR 0x08, CHR 0x0C, CHR 0x0A, CHR 0x0D, CHR 0x09}"
        "of_char ch < (32 :: nat)"
    | (plain) "ch \<noteq> CHR 0x22" "ch \<noteq> CHR 0x5C" "\<not> of_char ch < (32 :: nat)"
    by blast
  then show ?thesis
  proof cases
    case dq
    then show ?thesis by (simp add: json_escape_def parse_chars_short unescape_def)
  next
    case bs
    then show ?thesis by (simp add: json_escape_def parse_chars_short unescape_def)
  next
    case b
    then show ?thesis by (simp add: json_escape_def parse_chars_short unescape_def)
  next
    case f
    then show ?thesis by (simp add: json_escape_def parse_chars_short unescape_def)
  next
    case n
    then show ?thesis by (simp add: json_escape_def parse_chars_short unescape_def)
  next
    case r
    then show ?thesis by (simp add: json_escape_def parse_chars_short unescape_def)
  next
    case t
    then show ?thesis by (simp add: json_escape_def parse_chars_short unescape_def)
  next
    case ctl
    from ctl(2) have lt: "(of_char ch :: nat) < 256" by simp
    from parse_chars_hex [OF hex4_control [OF ctl(2)] lt, of tail] ctl show ?thesis
      by (simp add: json_escape_def)
  next
    case plain
    then have "json_escape ch = [ch]"
      by (auto simp: json_escape_def)
    with plain show ?thesis by (simp add: parse_chars_plain)
  qed
qed

lemma parse_chars_escaped:
  "parse_chars (concat (map json_escape s) @ CHR 0x22 # rest) = Inr (s, rest)"
  by (induction s) (simp_all add: parse_chars_quote parse_chars_escape cons_char_def)

lemma parse_chars_quoted:
  "parse_chars (tl (QuoteJSONString s) @ rest) = Inr (s, rest)"
  using parse_chars_escaped [of s rest] by (simp add: QuoteJSONString_def)


section \<open>JSON numbers\<close>

lemma digit_char_table:
  "list_all (\<lambda>d. is_digit (digit_char d) \<and> digit_val (digit_char d) = int d
                  \<and> digit_char d \<noteq> CHR ''-'' \<and> (digit_char d = CHR ''0'' \<longrightarrow> d = 0)) [0 ..< 10]"
  by code_simp

lemma digit_char_props:
  assumes "d < 10"
  shows "is_digit (digit_char d)" and "digit_val (digit_char d) = int d"
    and "digit_char d \<noteq> CHR ''-''" and "digit_char d = CHR ''0'' \<Longrightarrow> d = 0"
  using digit_char_table assms by (simp_all add: list_all_iff)

lemma decimal_digits: "list_all is_digit (decimal n)"
proof (induction n rule: decimal.induct)
  case (1 n)
  show ?case
  proof (cases "n < 10")
    case True
    then show ?thesis by (simp add: decimal.simps [of n] digit_char_props)
  next
    case False
    with 1 show ?thesis by (simp add: decimal.simps [of n] digit_char_props)
  qed
qed

lemma decimal_hd_zero: "hd (decimal n) = CHR ''0'' \<Longrightarrow> n = 0"
proof (induction n rule: decimal.induct)
  case (1 n)
  show ?case
  proof (cases "n < 10")
    case True
    with "1.prems" show ?thesis by (simp add: decimal.simps [of n] digit_char_props)
  next
    case False
    with "1.prems" have "hd (decimal (n div 10)) = CHR ''0''"
      by (simp add: decimal.simps [of n] decimal_nonempty)
    with "1.IH" False have "n div 10 = 0" by simp
    with False show ?thesis by simp
  qed
qed

lemma decimal_leading: "\<not> (hd (decimal n) = CHR ''0'' \<and> 1 < length (decimal n))"
proof
  assume a: "hd (decimal n) = CHR ''0'' \<and> 1 < length (decimal n)"
  then have "n = 0" by (simp add: decimal_hd_zero)
  with a show False by (simp add: decimal.simps)
qed

lemma digits_value_snoc: "digits_value (ds @ [ch]) = digits_value ds * 10 + digit_val ch"
  by (simp add: digits_value_def)

lemma digits_value_decimal: "digits_value (decimal n) = int n"
proof (induction n rule: decimal.induct)
  case (1 n)
  show ?case
  proof (cases "n < 10")
    case True
    then show ?thesis by (simp add: decimal.simps [of n] digits_value_def digit_char_props)
  next
    case False
    have "int (n div 10) * 10 + int (n mod 10) = int n"
      by (simp add: zdiv_int zmod_int)
    with False 1 show ?thesis
      by (simp add: decimal.simps [of n] digits_value_snoc digit_char_props)
  qed
qed

lemma decimal_hd_digit: "is_digit (hd (decimal n))"
  using decimal_digits [of n] decimal_nonempty [of n]
  by (cases "decimal n") simp_all

lemma decimal_hd_not_minus: "hd (decimal n) \<noteq> CHR ''-''"
  using decimal_hd_digit [of n] by (auto simp: is_digit_def)

lemma value_end_not_digit: "value_end rest \<Longrightarrow> rest \<noteq> [] \<Longrightarrow> \<not> is_digit (hd rest)"
  by (auto simp: value_end_def is_digit_def)

lemma takeWhile_digits:
  assumes "list_all is_digit ds" and "value_end rest"
  shows "takeWhile is_digit (ds @ rest) = ds" and "dropWhile is_digit (ds @ rest) = rest"
proof -
  have r: "takeWhile is_digit rest = [] \<and> dropWhile is_digit rest = rest"
  proof (cases rest)
    case Nil
    then show ?thesis by simp
  next
    case (Cons x xs)
    with value_end_not_digit [OF assms(2)] have "\<not> is_digit x" by simp
    with Cons show ?thesis by simp
  qed
  from assms(1) have a: "\<And>x. x \<in> set ds \<Longrightarrow> is_digit x" by (simp add: list_all_iff)
  show "takeWhile is_digit (ds @ rest) = ds"
    by (simp add: takeWhile_append2 [OF a] r)
  show "dropWhile is_digit (ds @ rest) = rest"
    by (simp add: dropWhile_append2 [OF a] r)
qed

lemma parse_digits_ok:
  assumes ds: "list_all is_digit ds" "ds \<noteq> []"
    and lead: "\<not> (hd ds = CHR ''0'' \<and> 1 < length ds)"
    and rest: "value_end rest"
    and safe: "safe_integer (digits_value ds)"
    and zero: "\<not> (negative \<and> digits_value ds = 0)"
  shows "parse_digits negative (ds @ rest)
       = Inr (if negative then - digits_value ds else digits_value ds, rest)"
proof -
  note tw = takeWhile_digits [OF ds(1) rest]
  from rest have e: "\<not> (rest \<noteq> [] \<and> hd rest \<in> {CHR ''.'', CHR ''e'', CHR ''E''})"
    by (auto simp: value_end_def)
  from safe zero
  have u: "\<not> (\<not> safe_integer (digits_value ds) \<or> (negative \<and> digits_value ds = 0))"
    by simp
  show ?thesis
    unfolding parse_digits_def Let_def
    by (simp only: tw ds(2) lead e u if_False)
qed

lemma parse_number_digits:
  assumes ds: "list_all is_digit ds" "ds \<noteq> []"
    and lead: "\<not> (hd ds = CHR ''0'' \<and> 1 < length ds)"
    and rest: "value_end rest"
    and safe: "safe_integer (digits_value ds)"
  shows "parse_number (ds @ rest) = Inr (digits_value ds, rest)"
    and "digits_value ds \<noteq> 0 \<Longrightarrow>
         parse_number (CHR ''-'' # ds @ rest) = Inr (- digits_value ds, rest)"
proof -
  from ds have "is_digit (hd ds)" by (cases ds) simp_all
  then have "hd ds \<noteq> CHR ''-''" by (auto simp: is_digit_def)
  with ds(2) have neg: "hd (ds @ rest) \<noteq> CHR ''-''" by simp
  have p: "parse_digits False (ds @ rest) = Inr (digits_value ds, rest)"
    using parse_digits_ok [OF ds lead rest safe, of False] by simp
  show "parse_number (ds @ rest) = Inr (digits_value ds, rest)"
    unfolding parse_number_def by (simp only: neg p) simp
  assume nz: "digits_value ds \<noteq> 0"
  have q: "parse_digits True (ds @ rest) = Inr (- digits_value ds, rest)"
    using parse_digits_ok [OF ds lead rest safe, of True] nz by simp
  show "parse_number (CHR ''-'' # ds @ rest) = Inr (- digits_value ds, rest)"
    by (simp add: parse_number_def q)
qed

lemma parse_number_decimal:
  assumes "value_end rest" and "safe_integer (int n)"
  shows "parse_number (decimal n @ rest) = Inr (int n, rest)"
proof -
  from assms(2) have s: "safe_integer (digits_value (decimal n))"
    by (simp only: digits_value_decimal)
  from parse_number_digits(1) [OF decimal_digits decimal_nonempty decimal_leading assms(1) s]
  show ?thesis by (simp only: digits_value_decimal)
qed

lemma parse_number_minus:
  assumes "value_end rest" and "safe_integer (int n)" and "n \<noteq> 0"
  shows "parse_number (CHR ''-'' # decimal n @ rest) = Inr (- int n, rest)"
proof -
  from assms(2) have s: "safe_integer (digits_value (decimal n))"
    by (simp only: digits_value_decimal)
  from assms(3) have z: "digits_value (decimal n) \<noteq> 0"
    by (simp add: digits_value_decimal)
  from parse_number_digits(2) [OF decimal_digits decimal_nonempty decimal_leading assms(1) s z]
  show ?thesis by (simp only: digits_value_decimal)
qed

lemma parse_number_toString:
  assumes "value_end rest" and "safe_integer i"
  shows "parse_number (Number_toString i @ rest) = Inr (i, rest)"
proof (cases "i < 0")
  case True
  with assms(2) have s: "safe_integer (int (nat (- i)))" and z: "nat (- i) \<noteq> 0"
    by (simp_all add: safe_integer_def)
  from True parse_number_minus [OF assms(1) s z] show ?thesis
    by (simp add: Number_toString_def)
next
  case False
  with assms(2) have s: "safe_integer (int (nat i))"
    by (simp add: safe_integer_def)
  from False parse_number_decimal [OF assms(1) s] show ?thesis
    by (simp add: Number_toString_def)
qed

lemma Number_toString_hd:
  "Number_toString i \<noteq> [] \<and> (hd (Number_toString i) = CHR ''-'' \<or> is_digit (hd (Number_toString i)))"
  using decimal_hd_digit decimal_nonempty by (simp add: Number_toString_def)


section \<open>JSON values\<close>

lemma value_start_props:
  "value_start c \<Longrightarrow> \<not> json_ws c \<and> c \<noteq> CHR '']'' \<and> c \<noteq> CHR ''}''"
  by (auto simp: value_start_def json_ws_def is_digit_def)

lemma skip_ws_start: "\<not> json_ws c \<Longrightarrow> skip_ws (c # cs) = c # cs"
  by (simp add: skip_ws_def)

lemma skip_ws_empty: "skip_ws [] = []"
  by (simp add: skip_ws_def)

lemma parse_value_null: "parse_value (Suc n) (''null'' @ rest) = Inr (JNull, rest)"
  by (simp add: skip_ws_def json_ws_def)

lemma parse_value_true: "parse_value (Suc n) (''true'' @ rest) = Inr (JBool True, rest)"
  by (simp add: skip_ws_def json_ws_def)

lemma parse_value_false: "parse_value (Suc n) (''false'' @ rest) = Inr (JBool False, rest)"
  by (simp add: skip_ws_def json_ws_def)

lemma parse_value_string:
  "parse_chars cs = Inr (str, rest) \<Longrightarrow>
   parse_value (Suc n) (CHR 0x22 # cs) = Inr (JString str, rest)"
  by (simp add: skip_ws_def json_ws_def)

lemma number_start:
  "ch = CHR ''-'' \<or> is_digit ch \<Longrightarrow>
   \<not> json_ws ch \<and> ch \<noteq> CHR ''n'' \<and> ch \<noteq> CHR ''t'' \<and> ch \<noteq> CHR ''f'' \<and> ch \<noteq> CHR 0x22
   \<and> ch \<noteq> CHR ''['' \<and> ch \<noteq> CHR ''{''"
  by (auto simp: json_ws_def is_digit_def)

lemma parse_value_number:
  assumes "ch = CHR ''-'' \<or> is_digit ch" and "parse_number (ch # cs) = Inr (i, rest)"
  shows "parse_value (Suc n) (ch # cs) = Inr (JNumber (Finite i), rest)"
proof -
  note s = number_start [OF assms(1)]
  from s have w: "skip_ws (ch # cs) = ch # cs" by (simp add: skip_ws_def)
  from s assms show ?thesis
    by (simp add: w)
qed

lemma parse_value_array_empty: "parse_value (Suc n) (''[]'' @ rest) = Inr (JArray [], rest)"
  by (simp add: skip_ws_def json_ws_def)

lemma parse_value_array:
  "value_start c1 \<Longrightarrow> parse_elements n (c1 # r) = Inr (vs, rest) \<Longrightarrow>
   parse_value (Suc n) (CHR ''['' # c1 # r) = Inr (JArray vs, rest)"
  using value_start_props [of c1] by (simp add: skip_ws_def json_ws_def)

lemma parse_value_object_empty: "parse_value (Suc n) (''{}'' @ rest) = Inr (JObject [], rest)"
  by (simp add: skip_ws_def json_ws_def)

lemma parse_value_object:
  "value_start c1 \<Longrightarrow> parse_members n (c1 # r) = Inr (members, rest) \<Longrightarrow>
   make_object members = Inr obj \<Longrightarrow>
   parse_value (Suc n) (CHR ''{'' # c1 # r) = Inr (obj, rest)"
  using value_start_props [of c1] by (simp add: skip_ws_def json_ws_def)

lemma parse_elements_last:
  "parse_value n s = Inr (v, CHR '']'' # rest) \<Longrightarrow> parse_elements (Suc n) s = Inr ([v], rest)"
  by (simp add: skip_ws_def json_ws_def)

lemma parse_elements_more:
  "parse_value n s = Inr (v, CHR '','' # r) \<Longrightarrow> parse_elements n r = Inr (vs, rest) \<Longrightarrow>
   parse_elements (Suc n) s = Inr (v # vs, rest)"
  by (simp add: skip_ws_def json_ws_def)

lemma parse_members_last:
  "parse_chars s1 = Inr (k, CHR '':'' # s3) \<Longrightarrow> parse_value n s3 = Inr (v, CHR ''}'' # rest) \<Longrightarrow>
   parse_members (Suc n) (CHR 0x22 # s1) = Inr ([(k, v)], rest)"
  by (simp add: skip_ws_def json_ws_def)

lemma parse_members_more:
  "parse_chars s1 = Inr (k, CHR '':'' # s3) \<Longrightarrow> parse_value n s3 = Inr (v, CHR '','' # r) \<Longrightarrow>
   parse_members n r = Inr (members, rest) \<Longrightarrow>
   parse_members (Suc n) (CHR 0x22 # s1) = Inr ((k, v) # members, rest)"
  by (simp add: skip_ws_def json_ws_def)

declare parse_value.simps [simp del] parse_elements.simps [simp del] parse_members.simps [simp del]

lemma obj_put_fresh: "k \<notin> fst ` set obj \<Longrightarrow> obj_put k v obj = obj @ [(k, v)]"
  by (induction obj) auto

lemma foldl_obj_put:
  "distinct (map fst (obj @ members)) \<Longrightarrow>
   foldl (\<lambda>obj m. obj_put (fst m) (snd m) obj) obj members = obj @ members"
proof (induction members arbitrary: obj)
  case Nil
  show ?case by simp
next
  case (Cons m members)
  from Cons.prems have f: "fst m \<notin> fst ` set obj" by auto
  from Cons.prems have d: "distinct (map fst ((obj @ [m]) @ members))" by simp
  from Cons.IH [OF d] obj_put_fresh [OF f, of "snd m"] show ?case by simp
qed

lemma make_object_wf:
  assumes "distinct (map fst kvs)" and "list_all (\<lambda>m. \<not> is_array_index (fst m)) kvs"
  shows "make_object kvs = Inr (JObject kvs)"
proof -
  from assms(2) have "\<not> list_ex (\<lambda>m. is_array_index (fst m)) kvs"
    by (simp add: list_all_iff list_ex_iff)
  with foldl_obj_put [of "[]" kvs] assms(1) show ?thesis
    by (simp add: make_object_def)
qed

lemma QuoteJSONString_Cons: "QuoteJSONString s = CHR 0x22 # tl (QuoteJSONString s)"
  by (simp add: QuoteJSONString_def)

lemma json_number_start: "\<exists>c cs. json_number n = c # cs \<and> value_start c"
proof (cases n)
  case (Finite i)
  from Number_toString_hd [of i] obtain c cs where "Number_toString i = c # cs"
    and "c = CHR ''-'' \<or> is_digit c"
    by (cases "Number_toString i") auto
  with Finite show ?thesis by (auto simp: value_start_def json_number_def)
qed (simp_all add: value_start_def json_number_def)

lemma stringify_start: "\<exists>c cs. stringify v = c # cs \<and> value_start c"
proof (cases v)
  case (JNumber n)
  with json_number_start [of n] show ?thesis by simp
qed (auto simp: value_start_def QuoteJSONString_def)

lemma stringify_elements_start:
  "vs \<noteq> [] \<Longrightarrow> \<exists>c cs. stringify_elements vs = c # cs \<and> value_start c"
proof -
  assume "vs \<noteq> []"
  then obtain v ws where vs: "vs = v # ws" by (cases vs) auto
  from stringify_start [of v] obtain c cs where c: "stringify v = c # cs" "value_start c"
    by blast
  with vs show ?thesis by (cases ws) simp_all
qed

lemma stringify_members_start:
  "kvs \<noteq> [] \<Longrightarrow> \<exists>cs. stringify_members kvs = CHR 0x22 # cs"
proof -
  assume "kvs \<noteq> []"
  then obtain k v ws where kvs: "kvs = (k, v) # ws" by (cases kvs) auto
  then show ?thesis by (cases ws) (simp_all add: QuoteJSONString_def)
qed

lemma value_end_intro:
  "value_end (CHR '','' # r)" "value_end (CHR '']'' # r)" "value_end (CHR ''}'' # r)" "value_end []"
  by (simp_all add: value_end_def)

lemma fuel_Suc: "Suc k \<le> n \<Longrightarrow> \<exists>m. n = Suc m \<and> k \<le> m"
  by (cases n) simp_all

lemma parse_stringify:
  "exact_json v \<longrightarrow>
     (\<forall>n rest. length (stringify v) \<le> n \<longrightarrow> value_end rest \<longrightarrow>
        parse_value n (stringify v @ rest) = Inr (v, rest))"
  "vs \<noteq> [] \<longrightarrow> list_all exact_json vs \<longrightarrow>
     (\<forall>n rest. length (stringify_elements vs) \<le> n \<longrightarrow>
        parse_elements n (stringify_elements vs @ rest) = Inr (vs, rest))"
  "kvs \<noteq> [] \<longrightarrow> list_all (\<lambda>m. exact_json (snd m)) kvs \<longrightarrow>
     (\<forall>n rest. length (stringify_members kvs) \<le> n \<longrightarrow>
        parse_members n (stringify_members kvs @ rest) = Inr (kvs, rest))"
proof (induction v and vs and kvs rule: stringify_stringify_elements_stringify_members.induct)
  case 1
  show ?case
  proof (intro impI allI)
    fix n rest
    assume "length (stringify JNull) \<le> n"
    then obtain m where "n = Suc m" by (cases n) simp_all
    then show "parse_value n (stringify JNull @ rest) = Inr (JNull, rest)"
      using parse_value_null [of m rest] by simp
  qed
next
  case (2 b)
  show ?case
  proof (intro impI allI)
    fix n rest
    assume "length (stringify (JBool b)) \<le> n"
    then obtain m where "n = Suc m" by (cases n) (simp_all split: if_splits)
    then show "parse_value n (stringify (JBool b) @ rest) = Inr (JBool b, rest)"
      using parse_value_true [of m rest] parse_value_false [of m rest] by simp
  qed
next
  case (3 x)
  show ?case
  proof (intro impI allI)
    fix n rest
    assume ex: "exact_json (JNumber x)"
      and len: "length (stringify (JNumber x)) \<le> n" and e: "value_end rest"
    from ex obtain i where x: "x = Finite i" and safe: "safe_integer i"
      by (cases x) simp_all
    from Number_toString_hd [of i] obtain c cs where t: "Number_toString i = c # cs"
      and c: "c = CHR ''-'' \<or> is_digit c"
      by (cases "Number_toString i") auto
    from len t x obtain m where n: "n = Suc m" by (cases n) (simp_all add: json_number_def)
    from parse_number_toString [OF e safe] t
    have "parse_number (c # (cs @ rest)) = Inr (i, rest)" by simp
    from parse_value_number [OF c this, of m] n t x
    show "parse_value n (stringify (JNumber x) @ rest) = Inr (JNumber x, rest)"
      by (simp add: json_number_def)
  qed
next
  case (4 s)
  show ?case
  proof (intro impI allI)
    fix n rest
    assume len: "length (stringify (JString s)) \<le> n"
    then obtain m where n: "n = Suc m" by (cases n) (simp_all add: QuoteJSONString_def)
    have q: "stringify (JString s) @ rest = CHR 0x22 # (tl (QuoteJSONString s) @ rest)"
      by (simp add: QuoteJSONString_def)
    show "parse_value n (stringify (JString s) @ rest) = Inr (JString s, rest)"
      unfolding n q by (rule parse_value_string [OF parse_chars_quoted])
  qed
next
  case (5 vs)
  show ?case
  proof (intro impI allI)
    fix n rest
    assume wf: "exact_json (JArray vs)" and len: "length (stringify (JArray vs)) \<le> n"
    from len obtain m where n: "n = Suc m" and m: "length (stringify_elements vs) \<le> m"
      using fuel_Suc [of "length (stringify_elements vs)" n] by auto
    show "parse_value n (stringify (JArray vs) @ rest) = Inr (JArray vs, rest)"
    proof (cases "vs = []")
      case True
      with n parse_value_array_empty [of m rest] show ?thesis by simp
    next
      case False
      from stringify_elements_start [OF False] obtain c cs where
        t: "stringify_elements vs = c # cs" and c: "value_start c" by blast
      from 5 False wf m have "parse_elements m (stringify_elements vs @ rest) = Inr (vs, rest)"
        by simp
      with t have "parse_elements m (c # (cs @ rest)) = Inr (vs, rest)" by simp
      from parse_value_array [OF c this] n t show ?thesis by simp
    qed
  qed
next
  case (6 kvs)
  show ?case
  proof (intro impI allI)
    fix n rest
    assume wf: "exact_json (JObject kvs)" and len: "length (stringify (JObject kvs)) \<le> n"
    from len obtain m where n: "n = Suc m" and m: "length (stringify_members kvs) \<le> m"
      using fuel_Suc [of "length (stringify_members kvs)" n] by auto
    from wf have d: "distinct (map fst kvs)"
      and ni: "list_all (\<lambda>m. \<not> is_array_index (fst m)) kvs"
      and w: "list_all (\<lambda>m. exact_json (snd m)) kvs"
      by (simp_all add: list_all_iff)
    show "parse_value n (stringify (JObject kvs) @ rest) = Inr (JObject kvs, rest)"
    proof (cases "kvs = []")
      case True
      with n parse_value_object_empty [of m rest] show ?thesis by simp
    next
      case False
      from stringify_members_start [OF False] obtain cs where
        t: "stringify_members kvs = CHR 0x22 # cs" by blast
      have c: "value_start (CHR 0x22)" by (simp add: value_start_def)
      from 6 False w m have "parse_members m (stringify_members kvs @ rest) = Inr (kvs, rest)"
        by simp
      with t have "parse_members m (CHR 0x22 # (cs @ rest)) = Inr (kvs, rest)" by simp
      from parse_value_object [OF c this make_object_wf [OF d ni]] n t show ?thesis by simp
    qed
  qed
next
  case 7
  show ?case by simp
next
  case (8 v)
  show ?case
  proof (intro impI allI)
    fix n rest
    assume wf: "list_all exact_json [v]" and len: "length (stringify_elements [v]) \<le> n"
    from len obtain m where n: "n = Suc m" and m: "length (stringify v) \<le> m"
      using fuel_Suc [of "length (stringify v)" n] by auto
    from 8 wf m value_end_intro(2) [of rest]
    have "parse_value m (stringify v @ CHR '']'' # rest) = Inr (v, CHR '']'' # rest)" by simp
    from parse_elements_last [OF this] n
    show "parse_elements n (stringify_elements [v] @ rest) = Inr ([v], rest)" by simp
  qed
next
  case (9 v w vs)
  show ?case
  proof (intro impI allI)
    fix n rest
    assume wf: "list_all exact_json (v # w # vs)"
      and len: "length (stringify_elements (v # w # vs)) \<le> n"
    let ?tail = "stringify_elements (w # vs) @ rest"
    from len obtain m where n: "n = Suc m"
      and m: "length (stringify v) + length (stringify_elements (w # vs)) \<le> m"
      using fuel_Suc [of "length (stringify v) + length (stringify_elements (w # vs))" n] by auto
    from m have m1: "length (stringify v) \<le> m" and m2: "length (stringify_elements (w # vs)) \<le> m"
      by simp_all
    from 9(1) wf m1 value_end_intro(1) [of ?tail]
    have a: "parse_value m (stringify v @ CHR '','' # ?tail) = Inr (v, CHR '','' # ?tail)" by simp
    from 9(2) wf m2 have b: "parse_elements m ?tail = Inr (w # vs, rest)" by simp
    from parse_elements_more [OF a b] n
    show "parse_elements n (stringify_elements (v # w # vs) @ rest) = Inr (v # w # vs, rest)"
      by simp
  qed
next
  case 10
  show ?case by simp
next
  case (11 k v)
  show ?case
  proof (intro impI allI)
    fix n rest
    assume wf: "list_all (\<lambda>m. exact_json (snd m)) [(k, v)]"
      and len: "length (stringify_members [(k, v)]) \<le> n"
    from len obtain m where n: "n = Suc m" and m: "length (stringify v) \<le> m"
      using fuel_Suc [of "length (stringify v)" n] by auto
    let ?s3 = "stringify v @ CHR ''}'' # rest"
    have k: "parse_chars (tl (QuoteJSONString k) @ CHR '':'' # ?s3) = Inr (k, CHR '':'' # ?s3)"
      by (rule parse_chars_quoted)
    from 11 wf m value_end_intro(3) [of rest]
    have a: "parse_value m ?s3 = Inr (v, CHR ''}'' # rest)" by simp
    have t: "stringify_members [(k, v)] @ rest
             = CHR 0x22 # (tl (QuoteJSONString k) @ CHR '':'' # ?s3)"
      by (simp add: QuoteJSONString_def)
    show "parse_members n (stringify_members [(k, v)] @ rest) = Inr ([(k, v)], rest)"
      unfolding n t by (rule parse_members_last [OF k a])
  qed
next
  case (12 k v m' kvs)
  show ?case
  proof (intro impI allI)
    fix n rest
    assume wf: "list_all (\<lambda>m. exact_json (snd m)) ((k, v) # m' # kvs)"
      and len: "length (stringify_members ((k, v) # m' # kvs)) \<le> n"
    let ?tail = "stringify_members (m' # kvs) @ rest"
    let ?s3 = "stringify v @ CHR '','' # ?tail"
    from len obtain m where n: "n = Suc m"
      and m: "length (stringify v) + length (stringify_members (m' # kvs)) \<le> m"
      using fuel_Suc [of "length (stringify v) + length (stringify_members (m' # kvs))" n]
      by auto
    from m have m1: "length (stringify v) \<le> m"
      and m2: "length (stringify_members (m' # kvs)) \<le> m" by simp_all
    have k: "parse_chars (tl (QuoteJSONString k) @ CHR '':'' # ?s3) = Inr (k, CHR '':'' # ?s3)"
      by (rule parse_chars_quoted)
    from 12(1) wf m1 value_end_intro(1) [of ?tail]
    have a: "parse_value m ?s3 = Inr (v, CHR '','' # ?tail)" by simp
    from 12(2) wf m2 have b: "parse_members m ?tail = Inr (m' # kvs, rest)" by simp
    have t: "stringify_members ((k, v) # m' # kvs) @ rest
             = CHR 0x22 # (tl (QuoteJSONString k) @ CHR '':'' # ?s3)"
      by (simp add: QuoteJSONString_def)
    show "parse_members n (stringify_members ((k, v) # m' # kvs) @ rest)
          = Inr ((k, v) # m' # kvs, rest)"
      unfolding n t by (rule parse_members_more [OF k a b])
  qed
qed

lemma exact_json_wf:
  "exact_json v \<longrightarrow> wf_json v"
  "list_all exact_json vs \<longrightarrow> list_all wf_json vs"
  "list_all (\<lambda>m. exact_json (snd m)) (kvs :: (string \<times> jsval) list)
     \<longrightarrow> list_all (\<lambda>m. wf_json (snd m)) kvs"
proof (induction v and vs and kvs rule: stringify_stringify_elements_stringify_members.induct)
  case (3 n)
  show ?case by (cases n) simp_all
next
  case (6 kvs)
  then show ?case by (auto simp: list_all_iff)
qed simp_all

lemma JSON_stringify_exact: "exact_json v \<Longrightarrow> JSON_stringify v = Inr (stringify v)"
  using exact_json_wf(1) [of v] by (simp add: JSON_stringify_def)

lemma JSON_parse_stringify:
  assumes "exact_json v"
  shows "JSON_parse (stringify v) = Inr v"
proof -
  from parse_stringify(1) [of v] assms value_end_intro(4)
  have "parse_value (Suc (2 * length (stringify v))) (stringify v @ []) = Inr (v, [])"
    by (simp del: append_Nil2)
  then show ?thesis
    by (simp add: JSON_parse_def skip_ws_def)
qed


section \<open>The bound of the parser\<close>

text \<open>
  Every successful call leaves a shorter text, so a bound above twice the length of the
  text is never used up: the result is the same for every larger bound.
\<close>

lemma skip_ws_length: "length (skip_ws s) \<le> length s"
  by (simp add: skip_ws_def length_dropWhile_le)

lemma skip_ws_Cons_length: "skip_ws s = ch # cs \<Longrightarrow> length cs < length s"
  using skip_ws_length [of s] by simp

lemma cons_char_Inr:
  "cons_char ch r = Inr (str, rest) \<Longrightarrow> \<exists>str'. r = Inr (str', rest)"
  by (auto simp: cons_char_def split: sum.splits)

lemma parse_chars_shorter: "parse_chars s = Inr (str, rest) \<Longrightarrow> length rest < length s"
proof (induction s arbitrary: str rest rule: length_induct)
  case (1 s)
  show ?case
  proof (cases s)
    case Nil
    with "1.prems" show ?thesis by (simp add: parse_chars.simps)
  next
    case (Cons ch cs)
    note s = this
    consider (quote) "ch = CHR 0x22"
      | (esc) "ch \<noteq> CHR 0x22" "ch = CHR 0x5C"
      | (plain) "ch \<noteq> CHR 0x22" "ch \<noteq> CHR 0x5C" by blast
    then show ?thesis
    proof cases
      case quote
      with "1.prems" s show ?thesis by (simp add: parse_chars.simps)
    next
      case plain
      with "1.prems" s have "\<exists>str'. parse_chars cs = Inr (str', rest)"
        by (auto simp: parse_chars.simps split: if_splits dest: cons_char_Inr)
      then obtain str' where "parse_chars cs = Inr (str', rest)" ..
      with "1.IH" s have "length rest < length cs" by simp
      with s show ?thesis by simp
    next
      case esc
      with "1.prems" s obtain e cs1 where cs: "cs = e # cs1"
        by (cases cs) (simp_all add: parse_chars.simps)
      show ?thesis
      proof (cases "e = CHR ''u''")
        case False
        with "1.prems" s esc cs have "\<exists>str'. parse_chars cs1 = Inr (str', rest)"
          by (auto simp: parse_chars.simps split: option.splits dest: cons_char_Inr)
        then obtain str' where "parse_chars cs1 = Inr (str', rest)" ..
        with "1.IH" s cs have "length rest < length cs1" by simp
        with s cs show ?thesis by simp
      next
        case True
        with "1.prems" s esc cs obtain h1 h2 h3 h4 cs2 where
          cs1: "cs1 = h1 # h2 # h3 # h4 # cs2"
          by (auto simp: parse_chars.simps split: list.splits)
        with "1.prems" s esc cs True have "\<exists>str'. parse_chars cs2 = Inr (str', rest)"
          by (auto simp: parse_chars.simps split: option.splits if_splits dest: cons_char_Inr)
        then obtain str' where "parse_chars cs2 = Inr (str', rest)" ..
        with "1.IH" s cs cs1 have "length rest < length cs2" by simp
        with s cs cs1 show ?thesis by simp
      qed
    qed
  qed
qed

lemma parse_digits_shorter:
  "parse_digits negative s = Inr (i, rest) \<Longrightarrow> length rest < length s"
proof -
  assume a: "parse_digits negative s = Inr (i, rest)"
  then have t: "takeWhile is_digit s \<noteq> []" and r: "rest = dropWhile is_digit s"
    by (auto simp: parse_digits_def Let_def split: if_splits)
  have "length s = length (takeWhile is_digit s) + length (dropWhile is_digit s)"
    by (metis length_append takeWhile_dropWhile_id)
  with t r show ?thesis by simp
qed

lemma parse_number_shorter:
  "parse_number s = Inr (i, rest) \<Longrightarrow> length rest < length s"
  by (auto simp: parse_number_def split: if_splits dest!: parse_digits_shorter)

lemma parse_value_unfold:
  "skip_ws s = [] \<Longrightarrow> parse_value (Suc n) s = Inl SyntaxError"
  "skip_ws s = CHR ''n'' # cs \<Longrightarrow>
     parse_value (Suc n) s = (if take 4 (CHR ''n'' # cs) = ''null''
                              then Inr (JNull, drop 4 (CHR ''n'' # cs)) else Inl SyntaxError)"
  "skip_ws s = CHR ''t'' # cs \<Longrightarrow>
     parse_value (Suc n) s = (if take 4 (CHR ''t'' # cs) = ''true''
                              then Inr (JBool True, drop 4 (CHR ''t'' # cs)) else Inl SyntaxError)"
  "skip_ws s = CHR ''f'' # cs \<Longrightarrow>
     parse_value (Suc n) s = (if take 5 (CHR ''f'' # cs) = ''false''
                              then Inr (JBool False, drop 5 (CHR ''f'' # cs)) else Inl SyntaxError)"
  "skip_ws s = CHR 0x22 # cs \<Longrightarrow>
     parse_value (Suc n) s = (case parse_chars cs of
                                Inl e \<Rightarrow> Inl e
                              | Inr (str, rest) \<Rightarrow> Inr (JString str, rest))"
  "skip_ws s = CHR ''['' # cs \<Longrightarrow>
     parse_value (Suc n) s =
       (case skip_ws cs of
          [] \<Rightarrow> Inl SyntaxError
        | c1 # rest1 \<Rightarrow>
            if c1 = CHR '']'' then Inr (JArray [], rest1)
            else (case parse_elements n (c1 # rest1) of
                    Inl e \<Rightarrow> Inl e
                  | Inr (vs, rest) \<Rightarrow> Inr (JArray vs, rest)))"
  "skip_ws s = CHR ''{'' # cs \<Longrightarrow>
     parse_value (Suc n) s =
       (case skip_ws cs of
          [] \<Rightarrow> Inl SyntaxError
        | c1 # rest1 \<Rightarrow>
            if c1 = CHR ''}'' then Inr (JObject [], rest1)
            else (case parse_members n (c1 # rest1) of
                    Inl e \<Rightarrow> Inl e
                  | Inr (members, rest) \<Rightarrow>
                      (case make_object members of
                         Inl e \<Rightarrow> Inl e
                       | Inr obj \<Rightarrow> Inr (obj, rest))))"
  by (simp_all add: parse_value.simps)

lemma parse_value_unfold_other:
  assumes "skip_ws s = ch # cs"
    and "ch \<noteq> CHR ''n''" "ch \<noteq> CHR ''t''" "ch \<noteq> CHR ''f''" "ch \<noteq> CHR 0x22"
      "ch \<noteq> CHR ''[''" "ch \<noteq> CHR ''{''"
  shows "parse_value (Suc n) s =
           (if ch = CHR ''-'' \<or> is_digit ch
            then (case parse_number (ch # cs) of
                    Inl e \<Rightarrow> Inl e
                  | Inr (i, rest) \<Rightarrow> Inr (JNumber (Finite i), rest))
            else Inl SyntaxError)"
  using assms by (simp add: parse_value.simps)

lemma parse_value_shorter_step:
  assumes e: "\<And>s vs rest. parse_elements n s = Inr (vs, rest) \<Longrightarrow> length rest < length s"
    and m: "\<And>s kvs rest. parse_members n s = Inr (kvs, rest) \<Longrightarrow> length rest < length s"
    and p: "parse_value (Suc n) s = Inr (v, rest)"
  shows "length rest < length s"
proof (cases "skip_ws s")
  case Nil
  with p show ?thesis by (simp add: parse_value_unfold)
next
  case (Cons ch cs)
  note sk = this
  from skip_ws_Cons_length [OF sk] have l: "length cs < length s" .
  consider (null) "ch = CHR ''n''" | (true) "ch = CHR ''t''" | (false) "ch = CHR ''f''"
    | (str) "ch = CHR 0x22" | (arr) "ch = CHR ''[''" | (obj) "ch = CHR ''{''"
    | (other) "ch \<noteq> CHR ''n''" "ch \<noteq> CHR ''t''" "ch \<noteq> CHR ''f''" "ch \<noteq> CHR 0x22"
      "ch \<noteq> CHR ''[''" "ch \<noteq> CHR ''{''"
    by blast
  then show ?thesis
  proof cases
    case null
    with sk have "skip_ws s = CHR ''n'' # cs" by simp
    from p [unfolded parse_value_unfold(2) [OF this]] have "rest = drop 4 (CHR ''n'' # cs)"
      by (simp split: if_splits)
    with l show ?thesis by simp
  next
    case true
    with sk have "skip_ws s = CHR ''t'' # cs" by simp
    from p [unfolded parse_value_unfold(3) [OF this]] have "rest = drop 4 (CHR ''t'' # cs)"
      by (simp split: if_splits)
    with l show ?thesis by simp
  next
    case false
    with sk have "skip_ws s = CHR ''f'' # cs" by simp
    from p [unfolded parse_value_unfold(4) [OF this]] have "rest = drop 5 (CHR ''f'' # cs)"
      by (simp split: if_splits)
    with l show ?thesis by simp
  next
    case str
    with sk have "skip_ws s = CHR 0x22 # cs" by simp
    from p [unfolded parse_value_unfold(5) [OF this]]
    obtain x where "parse_chars cs = Inr (x, rest)"
      by (auto split: sum.splits)
    from parse_chars_shorter [OF this] l show ?thesis by simp
  next
    case arr
    with sk have "skip_ws s = CHR ''['' # cs" by simp
    note u = p [unfolded parse_value_unfold(6) [OF this]]
    show ?thesis
    proof (cases "skip_ws cs")
      case Nil
      with u show ?thesis by simp
    next
      case (Cons c1 rest1)
      from skip_ws_length [of cs] Cons have l1: "length (c1 # rest1) \<le> length cs" by simp
      show ?thesis
      proof (cases "c1 = CHR '']''")
        case True
        with u Cons have "rest = rest1" by simp
        with l l1 show ?thesis by simp
      next
        case False
        with u Cons obtain vs where "parse_elements n (c1 # rest1) = Inr (vs, rest)"
          by (auto split: sum.splits)
        from e [OF this] l l1 show ?thesis by simp
      qed
    qed
  next
    case obj
    with sk have "skip_ws s = CHR ''{'' # cs" by simp
    note u = p [unfolded parse_value_unfold(7) [OF this]]
    show ?thesis
    proof (cases "skip_ws cs")
      case Nil
      with u show ?thesis by simp
    next
      case (Cons c1 rest1)
      from skip_ws_length [of cs] Cons have l1: "length (c1 # rest1) \<le> length cs" by simp
      show ?thesis
      proof (cases "c1 = CHR ''}''")
        case True
        with u Cons have "rest = rest1" by simp
        with l l1 show ?thesis by simp
      next
        case False
        with u Cons obtain kvs where "parse_members n (c1 # rest1) = Inr (kvs, rest)"
          by (auto split: sum.splits)
        from m [OF this] l l1 show ?thesis by simp
      qed
    qed
  next
    case other
    from p [unfolded parse_value_unfold_other [OF sk other]]
    obtain i where "parse_number (ch # cs) = Inr (i, rest)"
      by (auto split: if_splits sum.splits)
    from parse_number_shorter [OF this] l show ?thesis by simp
  qed
qed

lemma parse_elements_shorter_step:
  assumes v: "\<And>s v rest. parse_value n s = Inr (v, rest) \<Longrightarrow> length rest < length s"
    and e: "\<And>s vs rest. parse_elements n s = Inr (vs, rest) \<Longrightarrow> length rest < length s"
    and p: "parse_elements (Suc n) s = Inr (vs, rest)"
  shows "length rest < length s"
proof -
  from p obtain x r where x: "parse_value n s = Inr (x, r)"
    by (auto simp: parse_elements.simps split: sum.splits)
  from v [OF x] have lr: "length r < length s" .
  from p x obtain ch cs where sk: "skip_ws r = ch # cs"
    by (cases "skip_ws r") (simp_all add: parse_elements.simps)
  from skip_ws_Cons_length [OF sk] lr have l: "length cs < length s" by simp
  show ?thesis
  proof (cases "ch = CHR '',''")
    case True
    with p x sk obtain ws where "parse_elements n cs = Inr (ws, rest)"
      by (auto simp: parse_elements.simps split: sum.splits)
    from e [OF this] l show ?thesis by simp
  next
    case False
    with p x sk have "rest = cs"
      by (auto simp: parse_elements.simps split: if_splits)
    with l show ?thesis by simp
  qed
qed

lemma parse_members_Inr:
  assumes "parse_members (Suc n) s = Inr (kvs, rest)"
  obtains s1 k s2 s3 v s4 ch cs where
    "skip_ws s = CHR 0x22 # s1" "parse_chars s1 = Inr (k, s2)" "skip_ws s2 = CHR '':'' # s3"
    "parse_value n s3 = Inr (v, s4)" "skip_ws s4 = ch # cs"
    "ch = CHR '','' \<and> (\<exists>ms. parse_members n cs = Inr (ms, rest))
     \<or> ch = CHR ''}'' \<and> rest = cs"
proof -
  from assms obtain q s1 where a: "skip_ws s = q # s1"
    by (cases "skip_ws s") (simp_all add: parse_members.simps)
  with assms have q: "q = CHR 0x22"
    by (auto simp: parse_members.simps split: if_splits)
  with assms a obtain k s2 where b: "parse_chars s1 = Inr (k, s2)"
    by (cases "parse_chars s1") (auto simp: parse_members.simps)
  with assms a q obtain colon s3 where c: "skip_ws s2 = colon # s3"
    by (cases "skip_ws s2") (simp_all add: parse_members.simps)
  with assms a q b have co: "colon = CHR '':''"
    by (auto simp: parse_members.simps split: if_splits)
  with assms a q b c obtain v s4 where d: "parse_value n s3 = Inr (v, s4)"
    by (cases "parse_value n s3") (auto simp: parse_members.simps)
  with assms a q b c co obtain ch cs where e: "skip_ws s4 = ch # cs"
    by (cases "skip_ws s4") (simp_all add: parse_members.simps)
  with assms a q b c co d
  have "ch = CHR '','' \<and> (\<exists>ms. parse_members n cs = Inr (ms, rest))
     \<or> ch = CHR ''}'' \<and> rest = cs"
    by (auto simp: parse_members.simps split: if_splits sum.splits)
  with a q b c co d e that show ?thesis by blast
qed

lemma parse_members_shorter_step:
  assumes v: "\<And>s v rest. parse_value n s = Inr (v, rest) \<Longrightarrow> length rest < length s"
    and m: "\<And>s kvs rest. parse_members n s = Inr (kvs, rest) \<Longrightarrow> length rest < length s"
    and p: "parse_members (Suc n) s = Inr (kvs, rest)"
  shows "length rest < length s"
proof -
  from p obtain s1 k s2 s3 x s4 ch cs where
    a: "skip_ws s = CHR 0x22 # s1" and b: "parse_chars s1 = Inr (k, s2)"
    and c: "skip_ws s2 = CHR '':'' # s3" and d: "parse_value n s3 = Inr (x, s4)"
    and e: "skip_ws s4 = ch # cs"
    and f: "ch = CHR '','' \<and> (\<exists>ms. parse_members n cs = Inr (ms, rest))
            \<or> ch = CHR ''}'' \<and> rest = cs"
    by (rule parse_members_Inr)
  from skip_ws_Cons_length [OF a] parse_chars_shorter [OF b] skip_ws_Cons_length [OF c]
    v [OF d] skip_ws_Cons_length [OF e]
  have l: "length cs < length s" by simp
  from f show ?thesis
  proof
    assume "ch = CHR '','' \<and> (\<exists>ms. parse_members n cs = Inr (ms, rest))"
    then obtain ms where "parse_members n cs = Inr (ms, rest)" by blast
    from m [OF this] l show ?thesis by simp
  next
    assume "ch = CHR ''}'' \<and> rest = cs"
    with l show ?thesis by simp
  qed
qed

lemma parse_shorter:
  "(\<forall>s v rest. parse_value n s = Inr (v, rest) \<longrightarrow> length rest < length s)
   \<and> (\<forall>s vs rest. parse_elements n s = Inr (vs, rest) \<longrightarrow> length rest < length s)
   \<and> (\<forall>s kvs rest. parse_members n s = Inr (kvs, rest) \<longrightarrow> length rest < length s)"
proof (induction n)
  case 0
  show ?case by (simp add: parse_value.simps parse_elements.simps parse_members.simps)
next
  case (Suc n)
  then have v: "\<And>s v rest. parse_value n s = Inr (v, rest) \<Longrightarrow> length rest < length s"
    and e: "\<And>s vs rest. parse_elements n s = Inr (vs, rest) \<Longrightarrow> length rest < length s"
    and m: "\<And>s kvs rest. parse_members n s = Inr (kvs, rest) \<Longrightarrow> length rest < length s"
    by blast+
  show ?case
  proof (intro conjI allI impI)
    fix s x rest
    assume "parse_value (Suc n) s = Inr (x, rest)"
    with e m show "length rest < length s" by (rule parse_value_shorter_step)
  next
    fix s xs rest
    assume "parse_elements (Suc n) s = Inr (xs, rest)"
    with v e show "length rest < length s" by (rule parse_elements_shorter_step)
  next
    fix s xs rest
    assume "parse_members (Suc n) s = Inr (xs, rest)"
    with v m show "length rest < length s" by (rule parse_members_shorter_step)
  qed
qed

lemma parse_value_shorter: "parse_value n s = Inr (v, rest) \<Longrightarrow> length rest < length s"
  using parse_shorter [of n] by blast

lemma parse_value_cong:
  assumes e: "\<And>x. length x < length s \<Longrightarrow> parse_elements m x = parse_elements n x"
    and o: "\<And>x. length x < length s \<Longrightarrow> parse_members m x = parse_members n x"
  shows "parse_value (Suc m) s = parse_value (Suc n) s"
proof (cases "skip_ws s")
  case Nil
  then show ?thesis by (simp only: parse_value_unfold(1))
next
  case (Cons ch cs)
  note sk = this
  from skip_ws_Cons_length [OF sk] have l: "length cs < length s" .
  have sub: "parse_elements m x = parse_elements n x \<and> parse_members m x = parse_members n x"
    if "skip_ws cs = x" for x
  proof -
    from that skip_ws_length [of cs] l have "length x < length s" by simp
    with e o show ?thesis by simp
  qed
  consider (null) "ch = CHR ''n''" | (true) "ch = CHR ''t''" | (false) "ch = CHR ''f''"
    | (str) "ch = CHR 0x22" | (arr) "ch = CHR ''[''" | (obj) "ch = CHR ''{''"
    | (other) "ch \<noteq> CHR ''n''" "ch \<noteq> CHR ''t''" "ch \<noteq> CHR ''f''" "ch \<noteq> CHR 0x22"
      "ch \<noteq> CHR ''[''" "ch \<noteq> CHR ''{''"
    by blast
  then show ?thesis
  proof cases
    case null
    with sk have "skip_ws s = CHR ''n'' # cs" by simp
    then show ?thesis by (simp only: parse_value_unfold(2))
  next
    case true
    with sk have "skip_ws s = CHR ''t'' # cs" by simp
    then show ?thesis by (simp only: parse_value_unfold(3))
  next
    case false
    with sk have "skip_ws s = CHR ''f'' # cs" by simp
    then show ?thesis by (simp only: parse_value_unfold(4))
  next
    case str
    with sk have "skip_ws s = CHR 0x22 # cs" by simp
    then show ?thesis by (simp only: parse_value_unfold(5))
  next
    case arr
    with sk have u: "skip_ws s = CHR ''['' # cs" by simp
    show ?thesis
    proof (cases "skip_ws cs")
      case Nil
      then show ?thesis by (simp add: parse_value_unfold(6) [OF u])
    next
      case (Cons c1 rest1)
      with sub [OF Cons] show ?thesis by (simp add: parse_value_unfold(6) [OF u])
    qed
  next
    case obj
    with sk have u: "skip_ws s = CHR ''{'' # cs" by simp
    show ?thesis
    proof (cases "skip_ws cs")
      case Nil
      then show ?thesis by (simp add: parse_value_unfold(7) [OF u])
    next
      case (Cons c1 rest1)
      with sub [OF Cons] show ?thesis by (simp add: parse_value_unfold(7) [OF u])
    qed
  next
    case other
    show ?thesis by (simp only: parse_value_unfold_other [OF sk other])
  qed
qed

lemma parse_elements_cong:
  assumes v: "parse_value m s = parse_value n s"
    and e: "\<And>x. length x + 1 < length s \<Longrightarrow> parse_elements m x = parse_elements n x"
  shows "parse_elements (Suc m) s = parse_elements (Suc n) s"
proof (cases "parse_value n s")
  case (Inl err)
  with v show ?thesis by (simp add: parse_elements.simps)
next
  case (Inr p)
  obtain x r where p: "p = (x, r)" by (cases p)
  from Inr p have pv: "parse_value n s = Inr (x, r)" by simp
  from parse_value_shorter [OF pv] have lr: "length r < length s" .
  show ?thesis
  proof (cases "skip_ws r")
    case Nil
    with v pv show ?thesis by (simp add: parse_elements.simps)
  next
    case (Cons ch cs)
    from skip_ws_Cons_length [OF Cons] lr have "length cs + 1 < length s" by simp
    from e [OF this] v pv Cons show ?thesis by (simp add: parse_elements.simps)
  qed
qed

lemma parse_members_cong:
  assumes v: "\<And>x. length x < length s \<Longrightarrow> parse_value m x = parse_value n x"
    and o: "\<And>x. length x + 1 < length s \<Longrightarrow> parse_members m x = parse_members n x"
  shows "parse_members (Suc m) s = parse_members (Suc n) s"
proof (cases "skip_ws s")
  case Nil
  then show ?thesis by (simp add: parse_members.simps)
next
  case (Cons q s1)
  note a = this
  from skip_ws_Cons_length [OF a] have l1: "length s1 < length s" .
  show ?thesis
  proof (cases "parse_chars s1")
    case (Inl err)
    with a show ?thesis by (simp add: parse_members.simps)
  next
    case (Inr p)
    obtain k s2 where p: "p = (k, s2)" by (cases p)
    from Inr p have b: "parse_chars s1 = Inr (k, s2)" by simp
    from parse_chars_shorter [OF b] l1 have l2: "length s2 < length s" by simp
    show ?thesis
    proof (cases "skip_ws s2")
      case Nil
      with a b show ?thesis by (simp add: parse_members.simps)
    next
      case (Cons colon s3)
      note c = this
      from skip_ws_Cons_length [OF c] l2 have l3: "length s3 < length s" by simp
      note v3 = v [OF l3]
      show ?thesis
      proof (cases "parse_value n s3")
        case (Inl err)
        with a b c v3 show ?thesis by (simp add: parse_members.simps)
      next
        case (Inr p')
        obtain x s4 where p': "p' = (x, s4)" by (cases p')
        from Inr p' have d: "parse_value n s3 = Inr (x, s4)" by simp
        from parse_value_shorter [OF d] l3 have l4: "length s4 < length s" by simp
        show ?thesis
        proof (cases "skip_ws s4")
          case Nil
          with a b c v3 d show ?thesis by (simp add: parse_members.simps)
        next
          case (Cons ch cs)
          from skip_ws_Cons_length [OF Cons] parse_value_shorter [OF d] l3
          have "length cs + 1 < length s" by simp
          from o [OF this] a b c v3 d Cons show ?thesis by (simp add: parse_members.simps)
        qed
      qed
    qed
  qed
qed

lemma parse_bound_stable:
  "(\<forall>s m. 2 * length s < n \<longrightarrow> n \<le> m \<longrightarrow> parse_value m s = parse_value n s)
   \<and> (\<forall>s m. 2 * length s + 1 < n \<longrightarrow> n \<le> m \<longrightarrow> parse_elements m s = parse_elements n s)
   \<and> (\<forall>s m. 2 * length s + 1 < n \<longrightarrow> n \<le> m \<longrightarrow> parse_members m s = parse_members n s)"
proof (induction n)
  case 0
  show ?case by simp
next
  case (Suc n)
  then have v: "\<And>s m. 2 * length s < n \<Longrightarrow> n \<le> m \<Longrightarrow> parse_value m s = parse_value n s"
    and e: "\<And>s m. 2 * length s + 1 < n \<Longrightarrow> n \<le> m \<Longrightarrow> parse_elements m s = parse_elements n s"
    and o: "\<And>s m. 2 * length s + 1 < n \<Longrightarrow> n \<le> m \<Longrightarrow> parse_members m s = parse_members n s"
    by blast+
  show ?case
  proof (intro conjI allI impI)
    fix s :: string and m :: nat
    assume b: "2 * length s < Suc n" and le: "Suc n \<le> m"
    from le obtain m' where m: "m = Suc m'" and le': "n \<le> m'" by (cases m) simp_all
    have "parse_value (Suc m') s = parse_value (Suc n) s"
    proof (rule parse_value_cong)
      fix x :: string
      assume "length x < length s"
      with b have "2 * length x + 1 < n" by simp
      from this le' show "parse_elements m' x = parse_elements n x" by (rule e)
    next
      fix x :: string
      assume "length x < length s"
      with b have "2 * length x + 1 < n" by simp
      from this le' show "parse_members m' x = parse_members n x" by (rule o)
    qed
    with m show "parse_value m s = parse_value (Suc n) s" by simp
  next
    fix s :: string and m :: nat
    assume b: "2 * length s + 1 < Suc n" and le: "Suc n \<le> m"
    from le obtain m' where m: "m = Suc m'" and le': "n \<le> m'" by (cases m) simp_all
    have "parse_elements (Suc m') s = parse_elements (Suc n) s"
    proof (rule parse_elements_cong)
      from b have "2 * length s < n" by simp
      from this le' show "parse_value m' s = parse_value n s" by (rule v)
    next
      fix x :: string
      assume "length x + 1 < length s"
      with b have "2 * length x + 1 < n" by simp
      from this le' show "parse_elements m' x = parse_elements n x" by (rule e)
    qed
    with m show "parse_elements m s = parse_elements (Suc n) s" by simp
  next
    fix s :: string and m :: nat
    assume b: "2 * length s + 1 < Suc n" and le: "Suc n \<le> m"
    from le obtain m' where m: "m = Suc m'" and le': "n \<le> m'" by (cases m) simp_all
    have "parse_members (Suc m') s = parse_members (Suc n) s"
    proof (rule parse_members_cong)
      fix x :: string
      assume "length x < length s"
      with b have "2 * length x < n" by simp
      from this le' show "parse_value m' x = parse_value n x" by (rule v)
    next
      fix x :: string
      assume "length x + 1 < length s"
      with b have "2 * length x + 1 < n" by simp
      from this le' show "parse_members m' x = parse_members n x" by (rule o)
    qed
    with m show "parse_members m s = parse_members (Suc n) s" by simp
  qed
qed

lemma JSON_parse_bound:
  assumes "2 * length text < n"
  shows "(case parse_value n text of
            Inl e \<Rightarrow> Inl e
          | Inr (v, rest) \<Rightarrow> if skip_ws rest = [] then Inr v else Inl SyntaxError)
         = JSON_parse text"
proof -
  from assms have le: "Suc (2 * length text) \<le> n" by simp
  have lt: "2 * length text < Suc (2 * length text)" by simp
  from parse_bound_stable [of "Suc (2 * length text)"] lt le
  have "parse_value n text = parse_value (Suc (2 * length text)) text" by blast
  then show ?thesis by (simp only: JSON_parse_def)
qed

lemma parse_examples:
  \<open>JSON_parse ''{"slots": [ ]}'' = Inr (JObject [(''slots'', JArray [])])\<close>
  \<open>JSON_parse ''{"a":1,"b":[true,null,"x\<newline>"]}'' = Inl SyntaxError\<close>
  \<open>JSON_parse ''{"a":1,"a":[-20,"x"]}'' = Inr (JObject [(''a'', JArray [JNumber (Finite (-20)), JString ''x''])])\<close>
  \<open>JSON_parse ''[1.5]'' = Inl Unmodelled\<close>
  \<open>JSON_parse ''[01]'' = Inl SyntaxError\<close>
  \<open>JSON_parse ''[1,]'' = Inl SyntaxError\<close>
  \<open>JSON_parse ''nul'' = Inl SyntaxError\<close>
  \<open>JSON_parse '' true '' = Inr (JBool True)\<close>
  \<open>JSON_parse ''true false'' = Inl SyntaxError\<close>
  \<open>JSON_parse ''[[[[[['' = Inl SyntaxError\<close>
  \<open>JSON_parse ''[[[[1]]]]'' = Inr (JArray [JArray [JArray [JArray [JNumber (Finite 1)]]]])\<close>
  \<open>JSON_parse ''{"1":true}'' = Inl Unmodelled\<close>
  \<open>JSON_parse ''[9007199254740991,-9007199254740991]''
     = Inr (JArray [JNumber (Finite 9007199254740991), JNumber (Finite (-9007199254740991))])\<close>
  \<open>JSON_parse ''9007199254740993'' = Inl Unmodelled\<close>
  \<open>JSON_parse ''1e+21'' = Inl Unmodelled\<close>
  \<open>JSON_parse ''-0'' = Inl Unmodelled\<close>
  \<open>JSON_stringify (JArray [JNumber NaN, JNumber PosInfinity, JNumber (Finite (-7))])
     = Inr ''[null,null,-7]''\<close>
  \<open>JSON_stringify (JNumber (Finite 1000000000000000000000)) = Inl Unmodelled\<close>
  by code_simp+


section \<open>The config in the URL hash\<close>

lemma stringify_nonempty: "stringify v \<noteq> []"
  using stringify_start [of v] by auto

lemma not_index_names:
  "\<not> is_array_index ''key''" "\<not> is_array_index ''value''"
  "\<not> is_array_index ''ltd''" "\<not> is_array_index ''npa''" "\<not> is_array_index ''rdp''"
  "\<not> is_array_index ''tfcd''" "\<not> is_array_index ''tfua''"
  "\<not> is_array_index ''privacy''" "\<not> is_array_index ''sra''"
  "\<not> is_array_index ''targeting''"
  "\<not> is_array_index ''adUnit''" "\<not> is_array_index ''format''" "\<not> is_array_index ''size''"
  "\<not> is_array_index ''type''" "\<not> is_array_index ''target''"
  "\<not> is_array_index ''page''" "\<not> is_array_index ''slots''" "\<not> is_array_index ''template''"
  by (simp_all add: is_array_index_def is_digit_def)

lemma exact_to_json: "safe_data d \<Longrightarrow> exact_json (to_json d)"
proof (induction d)
  case (Num n)
  then show ?case by (cases n) simp_all
qed (simp_all add: list_all_iff)

lemma exact_kv_json: "safe_data (value kv) \<Longrightarrow> exact_json (kv_json kv)"
  by (simp add: kv_json_def not_index_names exact_to_json)

lemma exact_targeting_json:
  "list_all (\<lambda>kv. safe_data (value kv)) kvs \<Longrightarrow> exact_json (targeting_json kvs)"
  by (simp add: targeting_json_def list_all_iff exact_kv_json)

lemma exact_privacy_json: "exact_json (privacy_json p)"
  by (simp add: privacy_json_def optional_def not_index_names split: option.splits)

lemma exact_page_json: "safe_targeting (page_targeting p) \<Longrightarrow> exact_json (page_json p)"
  by (simp add: page_json_def optional_def not_index_names exact_privacy_json
      exact_targeting_json safe_targeting_def split: option.splits)

lemma exact_slot_json:
  "safe_data (slot_size s) \<Longrightarrow> safe_targeting (targeting s) \<Longrightarrow> exact_json (slot_json s)"
  by (simp add: slot_json_def optional_def not_index_names exact_targeting_json exact_to_json
      safe_targeting_def split: option.splits)

lemma exact_template_json:
  "safe_option (template_type t) \<Longrightarrow> safe_option (target t) \<Longrightarrow> exact_json (template_json t)"
  by (simp add: template_json_def optional_def not_index_names exact_to_json safe_option_def
      split: option.splits)

lemma exact_config_json:
  assumes "safe_numbers h c"
  shows "exact_json (config_json h c)"
proof -
  from assms have s: "list_all exact_json (map (\<lambda>s. slot_json (h s)) (slots c))"
    by (simp add: safe_numbers_def list_all_iff exact_slot_json)
  from assms have p: "\<And>p. page c = Some p \<Longrightarrow> exact_json (page_json p)"
    by (simp add: safe_numbers_def exact_page_json)
  from assms have t: "\<And>t. template c = Some t \<Longrightarrow> exact_json (template_json t)"
    by (simp add: safe_numbers_def exact_template_json)
  from s p t show ?thesis
    by (simp add: config_json_def optional_def not_index_names split: option.splits)
qed

lemma those_map_Some: "those (map (\<lambda>x. Some (f x)) xs) = Some (map f xs)"
  by (induction xs) simp_all

lemma those_map_inverse:
  "(\<And>x. x \<in> set xs \<Longrightarrow> rd (wr x) = Some x) \<Longrightarrow> those (map (rd \<circ> wr) xs) = Some xs"
  by (induction xs) simp_all

lemma of_json_to_json: "of_json (to_json d) = Some d"
  by (induction d) (simp_all add: those_map_inverse)

lemma read_kv_json: "read_kv (kv_json kv) = Some kv"
  by (simp add: read_kv_def kv_json_def properties_def required_def read_string_def
      of_json_to_json)

lemma read_targeting_json: "read_array read_kv (targeting_json kvs) = Some kvs"
  by (simp add: read_array_def targeting_json_def those_map_inverse read_kv_json)

lemma read_privacy_json: "read_privacy (privacy_json p) = Some p"
  by (simp add: read_privacy_def privacy_json_def properties_def read_optional_def
      read_bool_def optional_def split: option.splits)

lemma read_page_json: "read_page (page_json p) = Some p"
  by (simp add: read_page_def page_json_def properties_def read_optional_def read_bool_def
      optional_def read_privacy_json read_targeting_json split: option.splits)

lemma read_slot_json: "read_slot (slot_json s) = Some s"
  by (simp add: read_slot_def slot_json_def properties_def read_optional_def required_def
      read_string_def optional_def of_json_to_json read_targeting_json split: option.splits)

lemma read_template_json: "read_template (template_json t) = Some t"
  by (simp add: read_template_def template_json_def properties_def read_optional_def
      optional_def of_json_to_json split: option.splits)

lemma read_config_json:
  "read_config (config_json h c) = Some (page c, map h (slots c), template c)"
proof -
  have s: "those (map (read_slot \<circ> (\<lambda>s. slot_json (h s))) (slots c)) = Some (map h (slots c))"
    by (simp add: comp_def read_slot_json those_map_Some)
  show ?thesis
    by (simp add: read_config_def config_json_def properties_def read_optional_def required_def
        read_array_def optional_def s read_page_json read_template_json split: option.splits)
qed

lemma init_config_encoded:
  assumes "safe_numbers h c"
  shows "encode_config h c = Inr (base64url_encode (stringify (config_json h c)))"
    and "init_config (hash_with (base64url_encode (stringify (config_json h c))))
           base64url_decode JSON_parse
         = Inr (config_json h c)"
proof -
  note ex = exact_config_json [OF assms]
  show "encode_config h c = Inr (base64url_encode (stringify (config_json h c)))"
    by (simp add: encode_config_def JSON_stringify_exact [OF ex])
  have t: "truthy (Some (base64url_encode (stringify (config_json h c))))"
    by (simp add: truthy_def base64url_encode_nonempty stringify_nonempty)
  from JSON_parse_stringify [OF ex] t
  show "init_config (hash_with (base64url_encode (stringify (config_json h c))))
           base64url_decode JSON_parse
         = Inr (config_json h c)"
    by (simp add: init_config_def hash_with_def base64url_roundtrip)
qed

lemma stringify_example:
  \<open>JSON_stringify (config_json sample_store sra_empty_config)
     = Inr ''{"page":{"sra":true},"slots":[]}''\<close>
  \<open>encode_config sample_store sra_empty_config
     = Inr ''eyJwYWdlIjp7InNyYSI6dHJ1ZX0sInNsb3RzIjpbXX0''\<close>
  \<open>JSON_stringify (slot_json banner_slot) =
     Inr (''{"adUnit":"/6355419/Travel/Europe","size":[300,250],''
     @ ''"targeting":[{"key":"color","value":"red"},''
     @ ''{"key":"interests","value":["sports","music"]}]}'')\<close>
  \<open>JSON_stringify (config_json nan_store one_slot)
     = Inr ''{"slots":[{"adUnit":"/6355419/Travel","size":[null,250]}]}''\<close>
  by code_simp+

lemma encode_config_inj:
  assumes "safe_numbers h c" and "safe_numbers h' c'"
    and "encode_config h c = encode_config h' c'"
  shows "page c = page c' \<and> map h (slots c) = map h' (slots c') \<and> template c = template c'"
proof -
  let ?p = "base64url_encode (stringify (config_json h c))"
  let ?p' = "base64url_encode (stringify (config_json h' c'))"
  from init_config_encoded(1) [OF assms(1)] init_config_encoded(1) [OF assms(2)] assms(3)
  have "Inr ?p = (Inr ?p' :: js_error + string)" by (simp only:)
  then have p: "?p = ?p'" by (simp only: sum.inject)
  have "Inr (config_json h c) = init_config (hash_with ?p) base64url_decode JSON_parse"
    by (simp only: init_config_encoded(2) [OF assms(1)])
  also have "\<dots> = init_config (hash_with ?p') base64url_decode JSON_parse"
    by (simp only: p)
  also have "\<dots> = Inr (config_json h' c')"
    by (simp only: init_config_encoded(2) [OF assms(2)])
  finally have "config_json h c = config_json h' c'" by (simp only: sum.inject)
  then have "read_config (config_json h c) = read_config (config_json h' c')" by (simp only:)
  then have "Some (page c, map h (slots c), template c)
           = Some (page c', map h' (slots c'), template c')"
    by (simp only: read_config_json)
  then show ?thesis by (simp only: option.inject prod.inject)
qed




lemma JSON_parse_empty: "JSON_parse [] = Inl SyntaxError"
  by (simp add: JSON_parse_def parse_value.simps skip_ws_def)

lemma base64url_decode_empty: "base64url_decode [] = Inr []"
  by (simp add: base64url_decode_def)

lemma decode_brace: "base64url_decode ''ew'' = Inr ''{''"
  by code_simp

lemma parse_brace: "JSON_parse ''{'' = Inl SyntaxError"
  by code_simp

lemma init_config_cases:
  "(getParameter ''config'' = Some p \<and> p \<noteq> [] \<and> decode p = Inr text \<and> parse text = Inl e
      \<longrightarrow> init_config getParameter decode parse = Inl e)
   \<and> (getParameter ''config'' = None
      \<longrightarrow> init_config getParameter decode parse = Inr (JObject [(''slots'', JArray [])]))
   \<and> (getParameter ''config'' = Some []
      \<longrightarrow> init_config getParameter decode parse = Inr (JObject [(''slots'', JArray [])]))"
  by (simp add: init_config_def truthy_def default_config_def)

text \<open>
  \<^bold>\<open>C7.\<close> As stated the claim fails for a \<open>config\<close> parameter that is present but empty: the entry
  point tests the parameter for truthiness, so the empty string is not decoded and the
  config defaults. What holds: a non-empty \<open>config\<close> parameter whose decoded text the parser
  rejects ends the initialization with the parser's error, with no recovery or fallback;
  an absent or empty parameter gives the default config \<open>{slots: []}\<close>.
\<close>

theorem init_config_failure_or_default:
  "(getParameter ''config'' = Some p \<and> p \<noteq> [] \<and> decode p = Inr text \<and> parse text = Inl e
      \<longrightarrow> init_config getParameter decode parse = Inl e)
   \<and> (getParameter ''config'' = None
      \<longrightarrow> init_config getParameter decode parse = Inr (JObject [(''slots'', JArray [])]))
   \<and> (getParameter ''config'' = Some []
      \<longrightarrow> init_config getParameter decode parse = Inr (JObject [(''slots'', JArray [])]))"
  by (rule init_config_cases)

theorem init_config_failure_or_default_witness:
  "hash_with ''ew'' ''config'' = Some ''ew'' \<and> ''ew'' \<noteq> []
   \<and> base64url_decode ''ew'' = Inr ''{'' \<and> JSON_parse ''{'' = Inl SyntaxError
   \<and> init_config (hash_with ''ew'') base64url_decode JSON_parse = Inl SyntaxError
   \<and> hash_without_config ''config'' = None
   \<and> init_config hash_without_config base64url_decode JSON_parse
       = Inr (JObject [(''slots'', JArray [])])
   \<and> hash_with [] ''config'' = Some []
   \<and> init_config (hash_with []) base64url_decode JSON_parse
       = Inr (JObject [(''slots'', JArray [])])"
proof -
  have a: "hash_with ''ew'' ''config'' = Some ''ew'' \<and> ''ew'' \<noteq> []
      \<and> base64url_decode ''ew'' = Inr ''{'' \<and> JSON_parse ''{'' = Inl SyntaxError"
    by (simp add: hash_with_def decode_brace parse_brace)
  have b: "hash_without_config ''config'' = None"
    by (simp add: hash_without_config_def)
  have c: "hash_with [] ''config'' = Some []"
    by (simp add: hash_with_def)
  note t1 = init_config_failure_or_default [of "hash_with ''ew''" "''ew''" base64url_decode "''{''"
      JSON_parse SyntaxError]
  note t2 = init_config_failure_or_default [of hash_without_config _ base64url_decode _ JSON_parse]
  note t3 = init_config_failure_or_default [of "hash_with []" _ base64url_decode _ JSON_parse]
  from a t1 have 1: "init_config (hash_with ''ew'') base64url_decode JSON_parse = Inl SyntaxError"
    by blast
  from b t2 have 2: "init_config hash_without_config base64url_decode JSON_parse
       = Inr (JObject [(''slots'', JArray [])])" by blast
  from c t3 have 3: "init_config (hash_with []) base64url_decode JSON_parse
       = Inr (JObject [(''slots'', JArray [])])" by blast
  from a b c 1 2 3 show ?thesis by blast
qed

theorem init_config_empty_param_counterexample:
  "hash_with [] ''config'' = Some []
   \<and> base64url_decode [] = Inr [] \<and> JSON_parse [] = Inl SyntaxError
   \<and> init_config (hash_with []) base64url_decode JSON_parse
       = Inr (JObject [(''slots'', JArray [])])"
  by (simp add: hash_with_def base64url_decode_empty JSON_parse_empty init_config_def
      truthy_def default_config_def)

end
